theory Spec2Isabelle
  imports Main
begin

section \<open>The expression and command parser of the built-in command language\<close>

text \<open>
  A shallow embedding of \<^verbatim>\<open>src/Builtins/Parser.cpp\<close>: the operator tables, the
  recursive-descent expression parser with its precedence-climbing loop, and the
  command parser with its single-token-skip recovery.
\<close>

subsection \<open>Tokens and opcodes\<close>

text \<open>
  Modelled from the spec: the declaration of \<^verbatim>\<open>enum class TokenType\<close> is not part of
  the sources at hand. The constructors are the token kinds that the parser names;
  \<open>OTHER k\<close> stands for any further kind that the enumeration may declare. The
  parser does not name such a kind, so it meets the default of every table lookup and
  of the \<^verbatim>\<open>switch\<close> in \<^verbatim>\<open>parsePrimaryExpr\<close>.
\<close>

datatype TokenType =
    IDENTIFIER | INTEGER | FLOAT | STRING | VARIABLE
  | OPEN_PAREN | CLOSE_PAREN | UNKNOWN | EOFT
  | PLUS | MINUS | EXCLAMATION | TILDE
  | STAR | SLASH | PERCENT
  | DOUBLE_EQUAL | EXCLAMATION_EQUAL
  | GREATER | LESS | GREATER_EQUAL | LESS_EQUAL
  | DOUBLE_AMPERSAND | DOUBLE_PIPE
  | AMPERSAND | PIPE | CARET
  | DOUBLE_LESS | DOUBLE_GREATER
  | OTHER nat

text \<open>
  Modelled from the spec: \<^verbatim>\<open>enum class UnaryOpcode\<close> and \<^verbatim>\<open>enum class BinaryOpcode\<close>
  (the spec's data model lists their values). C++ scopes the enumerators, so
  \<^verbatim>\<open>UnaryOpcode::PLUS\<close>, \<^verbatim>\<open>UnaryOpcode::MINUS\<close> and the two \<^verbatim>\<open>NONE\<close> carry a suffix here.
\<close>

datatype UnaryOpcode =
    PLUS_unary | MINUS_unary | LOGIC_NEGATE | BIT_NEGATE | NONE_unary

datatype BinaryOpcode =
    ADD | SUBTRACT | MULTIPLY | DIVIDE | MOD
  | EQUALS | NOT_EQUALS
  | GREATER_THAN | LESS_THAN | GREATER_THAN_OR_EQUALS | LESS_THAN_OR_EQUALS
  | LOGIC_AND | LOGIC_OR
  | BIT_AND | BIT_OR | BIT_XOR
  | LEFT_SHIFT | RIGHT_SHIFT
  | NONE_binary

text \<open>
  Modelled from the spec: a token has a kind, its raw text and its inclusive start and
  end column. The parser reads \<^verbatim>\<open>columnStart\<close> of a token directly.
\<close>

record Token =
  type :: TokenType
  str :: string
  columnStart :: int
  columnEnd :: int

subsection \<open>Operator tables\<close>

definition unaryTokenMap :: "(TokenType \<times> UnaryOpcode) list" where
  "unaryTokenMap =
    [(PLUS, PLUS_unary),
     (MINUS, MINUS_unary),
     (EXCLAMATION, LOGIC_NEGATE),
     (TILDE, BIT_NEGATE)]"

definition binaryTokenMap :: "(TokenType \<times> BinaryOpcode) list" where
  "binaryTokenMap =
    [(PLUS, ADD),
     (MINUS, SUBTRACT),
     (STAR, MULTIPLY),
     (SLASH, DIVIDE),
     (PERCENT, MOD),
     (DOUBLE_EQUAL, EQUALS),
     (EXCLAMATION_EQUAL, NOT_EQUALS),
     (GREATER, GREATER_THAN),
     (LESS, LESS_THAN),
     (GREATER_EQUAL, GREATER_THAN_OR_EQUALS),
     (LESS_EQUAL, LESS_THAN_OR_EQUALS),
     (DOUBLE_AMPERSAND, LOGIC_AND),
     (DOUBLE_PIPE, LOGIC_OR),
     (AMPERSAND, BIT_AND),
     (PIPE, BIT_OR),
     (CARET, BIT_XOR),
     (DOUBLE_LESS, LEFT_SHIFT),
     (DOUBLE_GREATER, RIGHT_SHIFT)]"

definition binaryPrecedences :: "(BinaryOpcode \<times> int) list" where
  "binaryPrecedences =
    [(MULTIPLY, 700),
     (DIVIDE, 700),
     (MOD, 700),
     (ADD, 600),
     (SUBTRACT, 600),
     (LEFT_SHIFT, 500),
     (RIGHT_SHIFT, 500),
     (GREATER_THAN, 400),
     (LESS_THAN, 400),
     (GREATER_THAN_OR_EQUALS, 400),
     (LESS_THAN_OR_EQUALS, 400),
     (EQUALS, 300),
     (NOT_EQUALS, 300),
     (BIT_AND, 266),
     (BIT_XOR, 233),
     (BIT_OR, 200),
     (LOGIC_AND, 150),
     (LOGIC_OR, 100),
     (NONE_binary, - 1)]"

text \<open>
  Modelled from the spec: \<^verbatim>\<open>findWithDefault\<close> of \<^verbatim>\<open>Builtins/Support.h\<close> is not part of
  the sources at hand; the comments on its two callers say that it yields the mapped
  value, or the default when the key is not mapped.
\<close>

definition findWithDefault :: "('k \<times> 'v) list \<Rightarrow> 'k \<Rightarrow> 'v \<Rightarrow> 'v" where
  "findWithDefault m k d = (case map_of m k of Some v \<Rightarrow> v | None \<Rightarrow> d)"

text \<open>
  \<^verbatim>\<open>std::map::operator[]\<close>: the mapped value of an existing key; a missing key is
  inserted with a value-initialised (zero) entry first. The result is the value read
  and the table afterwards.
\<close>

definition subscript :: "('k \<times> int) list \<Rightarrow> 'k \<Rightarrow> int \<times> ('k \<times> int) list" where
  "subscript m k = (case map_of m k of Some v \<Rightarrow> (v, m) | None \<Rightarrow> (0, m @ [(k, 0)]))"

definition tokenTypeToUnaryOpcode :: "TokenType \<Rightarrow> UnaryOpcode" where
  "tokenTypeToUnaryOpcode t = findWithDefault unaryTokenMap t NONE_unary"

definition tokenTypeToBinaryOpcode :: "TokenType \<Rightarrow> BinaryOpcode" where
  "tokenTypeToBinaryOpcode t = findWithDefault binaryTokenMap t NONE_binary"

text \<open>
  The lookup goes through \<^verbatim>\<open>operator[]\<close> on the global table. Every opcode has an entry
  (lemma \<open>subscript_binaryPrecedences_table\<close> below), so no lookup ever changes the
  table and the parser can read the initial table throughout.
\<close>

definition binaryOpPrecedence :: "BinaryOpcode \<Rightarrow> int" where
  "binaryOpPrecedence op = fst (subscript binaryPrecedences op)"

subsection \<open>Syntax trees\<close>

text \<open>
  Modelled from the spec: the node classes of \<^verbatim>\<open>Builtins/AST.h\<close> are not part of the
  sources at hand. Each constructor takes the arguments that the parser passes to
  \<^verbatim>\<open>new\<close> in the same order: the start and end column first. The value of an
  integer node is the \<^verbatim>\<open>long long\<close> that \<^verbatim>\<open>atoll\<close> returns. The value of a float
  literal is \<^verbatim>\<open>atof\<close> of the token text; the node keeps that text here, floating
  point being outside this development.
\<close>

datatype ExprAST =
    IdentifierExpr int int string
  | IntegerExpr int int int
  | FloatExpr int int string
  | StringExpr int int string
  | VariableExpr int int string
  | UnaryOp int int UnaryOpcode ExprAST
  | BinaryOp int int BinaryOpcode ExprAST ExprAST

datatype CommandAST = CommandAST string int int "ExprAST list"

fun getStart :: "ExprAST \<Rightarrow> int" where
  "getStart (IdentifierExpr s e v) = s"
| "getStart (IntegerExpr s e v) = s"
| "getStart (FloatExpr s e v) = s"
| "getStart (StringExpr s e v) = s"
| "getStart (VariableExpr s e v) = s"
| "getStart (UnaryOp s e op x) = s"
| "getStart (BinaryOp s e op l r) = s"

fun getEnd :: "ExprAST \<Rightarrow> int" where
  "getEnd (IdentifierExpr s e v) = e"
| "getEnd (IntegerExpr s e v) = e"
| "getEnd (FloatExpr s e v) = e"
| "getEnd (StringExpr s e v) = e"
| "getEnd (VariableExpr s e v) = e"
| "getEnd (UnaryOp s e op x) = e"
| "getEnd (BinaryOp s e op l r) = e"

subsection \<open>The C library's \<^verbatim>\<open>atoll\<close>\<close>

text \<open>
  Leading white space, an optional sign, then decimal digits up to the first other
  character. The result is a \<^verbatim>\<open>long long\<close>: \<^verbatim>\<open>atoll\<close> is \<^verbatim>\<open>strtoll\<close> in base 10, which
  reads all the digits and returns the value, or \<^verbatim>\<open>LLONG_MAX\<close> or \<^verbatim>\<open>LLONG_MIN\<close> when
  the value lies beyond the 64-bit range. So the value of an integer node, an \<open>int\<close>
  here, is always one that a \<^verbatim>\<open>long long\<close> holds.
\<close>

definition LLONG_MAX :: int where
  "LLONG_MAX = 9223372036854775807"

definition LLONG_MIN :: int where
  "LLONG_MIN = - 9223372036854775808"

definition isspace :: "char \<Rightarrow> bool" where
  "isspace c = (of_char c \<in> {32, 9, 10, 11, 12, 13 :: nat})"

definition isdigit :: "char \<Rightarrow> bool" where
  "isdigit c = (48 \<le> (of_char c :: nat) \<and> (of_char c :: nat) \<le> 57)"

fun atoll_digits :: "int \<Rightarrow> string \<Rightarrow> int" where
  "atoll_digits acc [] = acc"
| "atoll_digits acc (c # cs) =
     (if isdigit c then atoll_digits (acc * 10 + (of_char c - 48)) cs else acc)"

definition saturate :: "int \<Rightarrow> int" where
  "saturate v = (if LLONG_MAX < v then LLONG_MAX else if v < LLONG_MIN then LLONG_MIN else v)"

definition atoll :: "string \<Rightarrow> int" where
  "atoll s =
     saturate
       (case dropWhile isspace s of
          [] \<Rightarrow> 0
        | c # cs \<Rightarrow>
            if c = CHR ''-'' then - atoll_digits 0 cs
            else if c = CHR ''+'' then atoll_digits 0 cs
            else atoll_digits 0 (c # cs))"

subsection \<open>The parser's state\<close>

text \<open>
  Modelled from the spec: the class declaration of \<^verbatim>\<open>Builtins/Parser.h\<close>, the scanner
  and the error context are not part of the sources at hand. The spec describes the
  token stream as an ordered, forward-only cursor, advanced one token at a time, on
  which end-of-input is itself a token kind, and the diagnostic sink as one operation
  taking a message and a column. The state is the current token, the tokens the
  scanner has still to deliver, and the diagnostics printed so far, oldest first. A
  scanner with nothing left delivers an end-of-input token.
\<close>

record Parser =
  currentToken :: Token
  scanner :: "Token list"
  errorContext :: "(string \<times> int) list"

definition endOfInput :: Token where
  "endOfInput = \<lparr>type = EOFT, str = [], columnStart = 0, columnEnd = 0\<rparr>"

definition getNextToken :: "Token list \<Rightarrow> Token \<times> Token list" where
  "getNextToken ts = (case ts of [] \<Rightarrow> (endOfInput, []) | t # ts' \<Rightarrow> (t, ts'))"

definition consumeToken :: "Parser \<Rightarrow> Parser" where
  "consumeToken p =
     (case getNextToken (scanner p) of
        (t, ts) \<Rightarrow> p\<lparr>currentToken := t, scanner := ts\<rparr>)"

definition currentType :: "Parser \<Rightarrow> TokenType" where
  "currentType p = type (currentToken p)"

definition currentStart :: "Parser \<Rightarrow> int" where
  "currentStart p = columnStart (currentToken p)"

definition currentEnd :: "Parser \<Rightarrow> int" where
  "currentEnd p = columnEnd (currentToken p)"

definition currentStr :: "Parser \<Rightarrow> string" where
  "currentStr p = str (currentToken p)"

definition currentCStr :: "Parser \<Rightarrow> string" where
  "currentCStr p = str (currentToken p)"

definition printMessage :: "Parser \<Rightarrow> string \<Rightarrow> int \<Rightarrow> Parser" where
  "printMessage p msg column = p\<lparr>errorContext := errorContext p @ [(msg, column)]\<rparr>"

subsection \<open>The expression parser\<close>

text \<open>
  A parse function returns the tree, or \<open>None\<close> for the null pointer, together with
  the state it leaves behind.
\<close>

type_synonym 'a parse = "'a option \<times> Parser"

definition error :: "Parser \<Rightarrow> Token \<Rightarrow> string \<Rightarrow> ExprAST parse" where
  "error p erringToken msg = (None, printMessage p msg (columnStart erringToken))"

definition parseIdentifierExpr :: "Parser \<Rightarrow> ExprAST parse" where
  "parseIdentifierExpr p =
     (let result = IdentifierExpr (currentStart p) (currentEnd p) (currentStr p)
      in (Some result, consumeToken p))"

definition parseIntegerExpr :: "Parser \<Rightarrow> ExprAST parse" where
  "parseIntegerExpr p =
     (let result = IntegerExpr (currentStart p) (currentEnd p) (atoll (currentCStr p))
      in (Some result, consumeToken p))"

definition parseFloatExpr :: "Parser \<Rightarrow> ExprAST parse" where
  "parseFloatExpr p =
     (let result = FloatExpr (currentStart p) (currentEnd p) (currentCStr p)
      in (Some result, consumeToken p))"

definition parseStringExpr :: "Parser \<Rightarrow> ExprAST parse" where
  "parseStringExpr p =
     (let result = StringExpr (currentStart p) (currentEnd p) (currentStr p)
      in (Some result, consumeToken p))"

definition parseVariableExpr :: "Parser \<Rightarrow> ExprAST parse" where
  "parseVariableExpr p =
     (let result = VariableExpr (currentStart p) (currentEnd p) (currentStr p)
      in (Some result, consumeToken p))"

text \<open>
  The five functions below call each other, and the loop of \<^verbatim>\<open>parseBinaryOpRHS\<close> goes
  on from the state that the operand parse returns. The first argument bounds the
  depth of calls (a turn of the loop counts as a call); \<open>None\<close> at the outside means
  that the bound was reached, so that a run of the C++ function that returns is a
  result \<open>Some r\<close> for some bound.
\<close>

fun parseExpression :: "nat \<Rightarrow> Parser \<Rightarrow> ExprAST parse option"
  and parsePrimaryExpr :: "nat \<Rightarrow> Parser \<Rightarrow> ExprAST parse option"
  and parseParenExpr :: "nat \<Rightarrow> Parser \<Rightarrow> ExprAST parse option"
  and parseUnaryOpExpr :: "nat \<Rightarrow> Parser \<Rightarrow> ExprAST parse option"
  and parseBinaryOpRHS :: "nat \<Rightarrow> int \<Rightarrow> ExprAST \<Rightarrow> Parser \<Rightarrow> ExprAST parse option"
where
  "parseExpression 0 p = None"
| "parseExpression (Suc n) p =
     (case parseUnaryOpExpr n p of
        None \<Rightarrow> None
      | Some (None, p1) \<Rightarrow> Some (None, p1)
      | Some (Some lhs, p1) \<Rightarrow> parseBinaryOpRHS n 0 lhs p1)"
| "parsePrimaryExpr 0 p = None"
| "parsePrimaryExpr (Suc n) p =
     (case currentType p of
        IDENTIFIER \<Rightarrow> Some (parseIdentifierExpr p)
      | INTEGER \<Rightarrow> Some (parseIntegerExpr p)
      | FLOAT \<Rightarrow> Some (parseFloatExpr p)
      | STRING \<Rightarrow> Some (parseStringExpr p)
      | VARIABLE \<Rightarrow> Some (parseVariableExpr p)
      | OPEN_PAREN \<Rightarrow> parseParenExpr n p
      | CLOSE_PAREN \<Rightarrow> Some (error p (currentToken p) ''unmatched parentheses'')
      | UNKNOWN \<Rightarrow> Some (error p (currentToken p) ''invalid character in input'')
      | _ \<Rightarrow> Some (error p (currentToken p) ''expected primary expression''))"
| "parseParenExpr 0 p = None"
| "parseParenExpr (Suc n) p =
     (let openParen = currentToken p;
          p1 = consumeToken p
      in case parseExpression n p1 of
           None \<Rightarrow> None
         | Some (None, p2) \<Rightarrow> Some (None, p2)
         | Some (Some expr, p2) \<Rightarrow>
             if currentType p2 \<noteq> CLOSE_PAREN
             then Some (error p2 openParen ''unmatched parentheses'')
             else Some (Some expr, consumeToken p2))"
| "parseUnaryOpExpr 0 p = None"
| "parseUnaryOpExpr (Suc n) p =
     (let op = tokenTypeToUnaryOpcode (currentType p);
          opStart = currentStart p;
          opEnd = currentEnd p
      in if op = NONE_unary then parsePrimaryExpr n p
         else
           let p1 = consumeToken p
           in case parseUnaryOpExpr n p1 of
                None \<Rightarrow> None
              | Some (None, p2) \<Rightarrow> Some (None, p2)
              | Some (Some operand, p2) \<Rightarrow> Some (Some (UnaryOp opStart opEnd op operand), p2))"
| "parseBinaryOpRHS 0 exprPrecedence lhs p = None"
| "parseBinaryOpRHS (Suc n) exprPrecedence lhs p =
     (let op = tokenTypeToBinaryOpcode (currentType p);
          opStart = currentStart p;
          opEnd = currentEnd p;
          tokenPrecedence = binaryOpPrecedence op
      in if tokenPrecedence < exprPrecedence then Some (Some lhs, p)
         else
           let p1 = consumeToken p
           in case parseUnaryOpExpr n p1 of
                None \<Rightarrow> None
              | Some (None, p2) \<Rightarrow> Some (None, p2)
              | Some (Some rhs, p2) \<Rightarrow>
                  let nextOp = tokenTypeToBinaryOpcode (currentType p2);
                      nextPrecedence = binaryOpPrecedence nextOp
                  in if tokenPrecedence < nextPrecedence
                     then (case parseBinaryOpRHS n (tokenPrecedence + 1) rhs p2 of
                             None \<Rightarrow> None
                           | Some (None, p3) \<Rightarrow> Some (None, p3)
                           | Some (Some rhs', p3) \<Rightarrow>
                               parseBinaryOpRHS n exprPrecedence
                                 (BinaryOp opStart opEnd op lhs rhs') p3)
                     else parseBinaryOpRHS n exprPrecedence
                            (BinaryOp opStart opEnd op lhs rhs) p2)"

subsection \<open>The command parser\<close>

text \<open>The \<^verbatim>\<open>while\<close> loop of \<^verbatim>\<open>parseCommand\<close> over the argument vector.\<close>

fun parseCommand_loop :: "nat \<Rightarrow> ExprAST list \<Rightarrow> Parser \<Rightarrow> (ExprAST list \<times> Parser) option" where
  "parseCommand_loop 0 args p = None"
| "parseCommand_loop (Suc n) args p =
     (if currentType p \<noteq> EOFT
      then (case parseUnaryOpExpr n p of
              None \<Rightarrow> None
            | Some (Some arg, p1) \<Rightarrow> parseCommand_loop n (args @ [arg]) p1
            | Some (None, p1) \<Rightarrow> parseCommand_loop n args (consumeToken p1))
      else Some (args, p))"

definition parseCommand :: "nat \<Rightarrow> Parser \<Rightarrow> CommandAST parse option" where
  "parseCommand n p0 =
     (let p = consumeToken p0
      in if currentType p \<noteq> IDENTIFIER
         then Some (None, printMessage p ''expected command'' (currentStart p))
         else
           let command = currentStr p;
               commandStart = currentStart p;
               commandEnd = currentEnd p;
               p1 = consumeToken p
           in case parseCommand_loop n [] p1 of
                None \<Rightarrow> None
              | Some (args, p2) \<Rightarrow>
                  Some (Some (CommandAST command commandStart commandEnd args), p2))"

subsection \<open>Notions used in the statements and proofs\<close>

text \<open>
  A parser standing at the first of the tokens \<open>ts\<close>, with the diagnostics \<open>es\<close>
  printed so far: the state after priming a scanner that holds \<open>ts\<close>. Every state
  \<open>p\<close> is \<open>parserAt (currentToken p # scanner p) (errorContext p)\<close>.
\<close>

definition parserAt :: "Token list \<Rightarrow> (string \<times> int) list \<Rightarrow> Parser" where
  "parserAt ts es = consumeToken \<lparr>currentToken = endOfInput, scanner = ts, errorContext = es\<rparr>"

abbreviation Tok :: "TokenType \<Rightarrow> string \<Rightarrow> int \<Rightarrow> int \<Rightarrow> Token" where
  "Tok ty s a b \<equiv> \<lparr>type = ty, str = s, columnStart = a, columnEnd = b\<rparr>"

text \<open>
  The number of tokens left before the end of input: those the scanner still holds,
  and the current one unless it is the end-of-input token.
\<close>

definition remaining :: "Parser \<Rightarrow> nat" where
  "remaining p = length (scanner p) + (if currentType p = EOFT then 0 else 1)"

text \<open>
  The tokens that can still become current: the current one, those the scanner holds,
  and the end-of-input token of an exhausted scanner.
\<close>

definition upcoming :: "Parser \<Rightarrow> Token set" where
  "upcoming p = insert endOfInput (set (currentToken p # scanner p))"

text \<open>
  What a parse from \<open>p\<close> with the result \<open>r\<close> and the final state \<open>p'\<close> leaves behind.
  A success prints nothing and a failure prints exactly one diagnostic (\<open>reported\<close>);
  no parse gives tokens back (\<open>ok_weak\<close>); a successful expression or operand parse
  has consumed a token (\<open>ok_strict\<close>); an operand parse that fails has consumed a
  token or has left the token stream as it was (\<open>ok_operand\<close>).
\<close>

definition reported :: "Parser \<Rightarrow> ExprAST option \<Rightarrow> Parser \<Rightarrow> bool" where
  "reported p r p' \<longleftrightarrow>
     (case r of Some e \<Rightarrow> errorContext p' = errorContext p
      | None \<Rightarrow> (\<exists>m. errorContext p' = errorContext p @ [m]))"

definition ok_weak :: "Parser \<Rightarrow> ExprAST option \<Rightarrow> Parser \<Rightarrow> bool" where
  "ok_weak p r p' \<longleftrightarrow>
     remaining p' \<le> remaining p \<and> upcoming p' \<subseteq> upcoming p \<and> reported p r p'"

definition ok_strict :: "Parser \<Rightarrow> ExprAST option \<Rightarrow> Parser \<Rightarrow> bool" where
  "ok_strict p r p' \<longleftrightarrow> ok_weak p r p' \<and> (r \<noteq> None \<longrightarrow> remaining p' < remaining p)"

definition ok_operand :: "Parser \<Rightarrow> ExprAST option \<Rightarrow> Parser \<Rightarrow> bool" where
  "ok_operand p r p' \<longleftrightarrow> ok_strict p r p' \<and>
     (r = None \<longrightarrow> remaining p' < remaining p
        \<or> (currentToken p' = currentToken p \<and> scanner p' = scanner p))"

text \<open>
  The floors (\<^verbatim>\<open>exprPrecedence\<close>) that the climbing loop is run with:
  \<^verbatim>\<open>parseExpression\<close> passes \<open>0\<close>, and a turn of the loop that did not stop at an
  operator passes that operator's precedence plus one when the next token binds
  tighter.
\<close>

inductive climbing_floor :: "int \<Rightarrow> bool" where
  entry: "climbing_floor 0"
| deeper: "climbing_floor exprPrecedence \<Longrightarrow>
     \<not> binaryOpPrecedence op < exprPrecedence \<Longrightarrow>
     binaryOpPrecedence op < binaryOpPrecedence nextOp \<Longrightarrow>
     climbing_floor (binaryOpPrecedence op + 1)"

definition currentPrecedence :: "Parser \<Rightarrow> int" where
  "currentPrecedence p = binaryOpPrecedence (tokenTypeToBinaryOpcode (currentType p))"

text \<open>
  Grouping. \<open>inorder\<close> reads a tree from left to right as operands and binary
  operators, an operand being any node that is not a binary node; \<open>item_of\<close> is the
  operand or operator that a literal or operator token stands for; \<open>joined\<close> is the
  token sequence of operator and literal pairs. In a \<open>grouped\<close> tree the left operand
  of every binary node binds at least as tightly as the node's operator and the right
  operand strictly tighter, where a node that is not binary binds tighter than every
  operator: higher precedence groups first, equal precedence groups from the left.
\<close>

datatype item = Operand ExprAST | Operator int int BinaryOpcode

fun inorder :: "ExprAST \<Rightarrow> item list" where
  "inorder (BinaryOp s e op l r) = inorder l @ Operator s e op # inorder r"
| "inorder x = [Operand x]"

definition item_of :: "Token \<Rightarrow> item" where
  "item_of t =
     (if type t = INTEGER
      then Operand (IntegerExpr (columnStart t) (columnEnd t) (atoll (str t)))
      else Operator (columnStart t) (columnEnd t) (tokenTypeToBinaryOpcode (type t)))"

fun binds_at_least :: "int \<Rightarrow> ExprAST \<Rightarrow> bool" where
  "binds_at_least q (BinaryOp s e op l r) = (q \<le> binaryOpPrecedence op)"
| "binds_at_least q x = True"

fun grouped :: "ExprAST \<Rightarrow> bool" where
  "grouped (BinaryOp s e op l r) =
     (grouped l \<and> grouped r
      \<and> binds_at_least (binaryOpPrecedence op) l
      \<and> binds_at_least (binaryOpPrecedence op + 1) r)"
| "grouped x = True"

fun joined :: "(Token \<times> Token) list \<Rightarrow> Token list" where
  "joined [] = []"
| "joined ((opTok, t) # ps) = opTok # t # joined ps"

definition ops_ge :: "int \<Rightarrow> item list \<Rightarrow> bool" where
  "ops_ge q xs \<longleftrightarrow> (\<forall>s e op. Operator s e op \<in> set xs \<longrightarrow> q \<le> binaryOpPrecedence op)"

text \<open>The unary operator tokens \<open>us\<close> nested around an operand, the first outermost.\<close>

definition nest :: "Token list \<Rightarrow> ExprAST \<Rightarrow> ExprAST" where
  "nest us operand =
     foldr (\<lambda>u e. UnaryOp (columnStart u) (columnEnd u) (tokenTypeToUnaryOpcode (type u)) e)
       us operand"

text \<open>
  Which tokens a tree is built from. \<open>built_from tree ts\<close>: the tree is built from
  exactly the tokens \<open>ts\<close>, in this order. A leaf is built from its one token and has
  that token's columns and text (an integer leaf the \<^verbatim>\<open>atoll\<close> of the text). A unary
  node is built from its operator token, whose columns and opcode it has, followed
  by the tokens of its operand. A binary node is built from the tokens of its left
  operand, then its operator token, whose columns and opcode it has, then the tokens
  of its right operand. Parentheses around the tokens of a tree add no node.
\<close>

inductive built_from :: "ExprAST \<Rightarrow> Token list \<Rightarrow> bool" where
  of_identifier: "type t = IDENTIFIER \<Longrightarrow>
     built_from (IdentifierExpr (columnStart t) (columnEnd t) (str t)) [t]"
| of_integer: "type t = INTEGER \<Longrightarrow>
     built_from (IntegerExpr (columnStart t) (columnEnd t) (atoll (str t))) [t]"
| of_float: "type t = FLOAT \<Longrightarrow>
     built_from (FloatExpr (columnStart t) (columnEnd t) (str t)) [t]"
| of_string: "type t = STRING \<Longrightarrow>
     built_from (StringExpr (columnStart t) (columnEnd t) (str t)) [t]"
| of_variable: "type t = VARIABLE \<Longrightarrow>
     built_from (VariableExpr (columnStart t) (columnEnd t) (str t)) [t]"
| in_parentheses: "type l = OPEN_PAREN \<Longrightarrow> built_from tree ts \<Longrightarrow> type r = CLOSE_PAREN \<Longrightarrow>
     built_from tree (l # ts @ [r])"
| of_unary: "tokenTypeToUnaryOpcode (type u) \<noteq> NONE_unary \<Longrightarrow> built_from operand ts \<Longrightarrow>
     built_from (UnaryOp (columnStart u) (columnEnd u) (tokenTypeToUnaryOpcode (type u)) operand)
       (u # ts)"
| of_binary: "built_from lhs ts1 \<Longrightarrow> tokenTypeToBinaryOpcode (type b) \<noteq> NONE_binary \<Longrightarrow>
     built_from rhs ts2 \<Longrightarrow>
     built_from (BinaryOp (columnStart b) (columnEnd b) (tokenTypeToBinaryOpcode (type b)) lhs rhs)
       (ts1 @ b # ts2)"

text \<open>
  \<open>arguments_from args ts\<close>: the arguments are built, one after the other, from
  consecutive stretches of \<open>ts\<close>, with skipped tokens before, between and after them.
\<close>

inductive arguments_from :: "ExprAST list \<Rightarrow> Token list \<Rightarrow> bool" where
  no_more: "arguments_from [] []"
| argument: "built_from arg ts \<Longrightarrow> arguments_from args rest \<Longrightarrow>
     arguments_from (arg # args) (ts @ rest)"
| skipped: "arguments_from args rest \<Longrightarrow> arguments_from args (t # rest)"

text \<open>
  \<open>node_spans\<close> lists the spans of all nodes of a tree from left to right: an
  operand to the left of a binary node first, then the node, then what is to its
  right. \<open>token_spans\<close> lists the columns of the tokens other than parentheses.
  \<open>covers x ts\<close>: the span of \<open>x\<close> reaches from the first column to the last column
  of every token of \<open>ts\<close>.
\<close>

fun node_spans :: "ExprAST \<Rightarrow> (int \<times> int) list" where
  "node_spans (UnaryOp s e op operand) = (s, e) # node_spans operand"
| "node_spans (BinaryOp s e op lhs rhs) = node_spans lhs @ (s, e) # node_spans rhs"
| "node_spans x = [(getStart x, getEnd x)]"

definition token_spans :: "Token list \<Rightarrow> (int \<times> int) list" where
  "token_spans ts =
     map (\<lambda>t. (columnStart t, columnEnd t))
       (filter (\<lambda>t. type t \<noteq> OPEN_PAREN \<and> type t \<noteq> CLOSE_PAREN) ts)"


text \<open>
  The inputs of the examples, as the tokens a scanner would deliver, with columns
  counted from 0 and an end-of-input token last.
\<close>

definition tokens_2_plus_3_times_4 :: "Token list" where
  "tokens_2_plus_3_times_4 =
     [Tok INTEGER ''2'' 0 0, Tok PLUS ''+'' 2 2, Tok INTEGER ''3'' 4 4, Tok STAR ''*'' 6 6,
      Tok INTEGER ''4'' 8 8, Tok EOFT [] 9 9]"

definition tokens_1_minus_2_minus_3 :: "Token list" where
  "tokens_1_minus_2_minus_3 =
     [Tok INTEGER ''1'' 0 0, Tok MINUS ''-'' 2 2, Tok INTEGER ''2'' 4 4, Tok MINUS ''-'' 6 6,
      Tok INTEGER ''3'' 8 8, Tok EOFT [] 9 9]"

definition tokens_minus_paren_1_plus_2 :: "Token list" where
  "tokens_minus_paren_1_plus_2 =
     [Tok MINUS ''-'' 0 0, Tok OPEN_PAREN ''('' 1 1, Tok INTEGER ''1'' 2 2, Tok PLUS ''+'' 4 4,
      Tok INTEGER ''2'' 6 6, Tok CLOSE_PAREN '')'' 7 7, Tok EOFT [] 8 8]"

definition tokens_paren_1_plus_2_open :: "Token list" where
  "tokens_paren_1_plus_2_open =
     [Tok OPEN_PAREN ''('' 0 0, Tok INTEGER ''1'' 1 1, Tok PLUS ''+'' 3 3,
      Tok INTEGER ''2'' 5 5, Tok EOFT [] 6 6]"

definition tokens_cmd_1_at_2 :: "Token list" where
  "tokens_cmd_1_at_2 =
     [Tok IDENTIFIER ''cmd'' 0 2, Tok INTEGER ''1'' 4 4, Tok UNKNOWN ''@'' 6 6,
      Tok INTEGER ''2'' 8 8, Tok EOFT [] 9 9]"

definition tokens_cmd_1_plus_2 :: "Token list" where
  "tokens_cmd_1_plus_2 =
     [Tok IDENTIFIER ''cmd'' 0 2, Tok INTEGER ''1'' 4 4, Tok PLUS ''+'' 6 6,
      Tok INTEGER ''2'' 8 8, Tok EOFT [] 9 9]"



definition tokens_1_plus_2_plus_3 :: "Token list" where
  "tokens_1_plus_2_plus_3 =
     [Tok INTEGER ''1'' 0 0, Tok PLUS ''+'' 2 2, Tok INTEGER ''2'' 4 4, Tok PLUS ''+'' 6 6,
      Tok INTEGER ''3'' 8 8]"

subsection \<open>Facts about the tables\<close>

lemma subscript_binaryPrecedences_table:
  "subscript binaryPrecedences op = (binaryOpPrecedence op, binaryPrecedences)"
  by (cases op; simp add: binaryOpPrecedence_def subscript_def binaryPrecedences_def)

lemma binaryOpPrecedence_simps:
  "binaryOpPrecedence MULTIPLY = 700"
  "binaryOpPrecedence DIVIDE = 700"
  "binaryOpPrecedence MOD = 700"
  "binaryOpPrecedence ADD = 600"
  "binaryOpPrecedence SUBTRACT = 600"
  "binaryOpPrecedence LEFT_SHIFT = 500"
  "binaryOpPrecedence RIGHT_SHIFT = 500"
  "binaryOpPrecedence GREATER_THAN = 400"
  "binaryOpPrecedence LESS_THAN = 400"
  "binaryOpPrecedence GREATER_THAN_OR_EQUALS = 400"
  "binaryOpPrecedence LESS_THAN_OR_EQUALS = 400"
  "binaryOpPrecedence EQUALS = 300"
  "binaryOpPrecedence NOT_EQUALS = 300"
  "binaryOpPrecedence BIT_AND = 266"
  "binaryOpPrecedence BIT_XOR = 233"
  "binaryOpPrecedence BIT_OR = 200"
  "binaryOpPrecedence LOGIC_AND = 150"
  "binaryOpPrecedence LOGIC_OR = 100"
  "binaryOpPrecedence NONE_binary = - 1"
  by (simp_all add: binaryOpPrecedence_def subscript_def binaryPrecedences_def)

lemma binaryOpPrecedence_real: "op \<noteq> NONE_binary \<Longrightarrow> 100 \<le> binaryOpPrecedence op"
  by (cases op; simp add: binaryOpPrecedence_simps)

lemma binaryOpPrecedence_lower: "- 1 \<le> binaryOpPrecedence op"
  by (cases op; simp add: binaryOpPrecedence_simps)

lemma tokenTypeToUnaryOpcode_simps:
  "tokenTypeToUnaryOpcode t =
     (if t = PLUS then PLUS_unary else if t = MINUS then MINUS_unary
      else if t = EXCLAMATION then LOGIC_NEGATE else if t = TILDE then BIT_NEGATE
      else NONE_unary)"
  by (simp add: tokenTypeToUnaryOpcode_def findWithDefault_def unaryTokenMap_def)

lemma tokenTypeToUnaryOpcode_EOFT: "tokenTypeToUnaryOpcode t \<noteq> NONE_unary \<Longrightarrow> t \<noteq> EOFT"
  by (auto simp: tokenTypeToUnaryOpcode_simps)


subsection \<open>One step of each parse function\<close>

lemma parseExpression_Suc_cases:
  assumes "parseExpression (Suc n) p = Some (r, p')"
  shows "(parseUnaryOpExpr n p = Some (None, p') \<and> r = None)
       \<or> (\<exists>lhs p1. parseUnaryOpExpr n p = Some (Some lhs, p1)
            \<and> parseBinaryOpRHS n 0 lhs p1 = Some (r, p'))"
  using assms by (auto split: option.splits)

lemma parsePrimaryExpr_Suc_paren:
  "currentType p = OPEN_PAREN \<Longrightarrow> parsePrimaryExpr (Suc n) p = parseParenExpr n p"
  by simp

lemma parsePrimaryExpr_Suc_other:
  "currentType p \<noteq> OPEN_PAREN \<Longrightarrow> parsePrimaryExpr (Suc n) p = parsePrimaryExpr (Suc 0) p"
  by (cases "currentType p") simp_all

lemma parseParenExpr_Suc_cases:
  assumes "parseParenExpr (Suc n) p = Some (r, p')"
  shows "(parseExpression n (consumeToken p) = Some (None, p') \<and> r = None)
       \<or> (\<exists>expr p2. parseExpression n (consumeToken p) = Some (Some expr, p2)
            \<and> currentType p2 \<noteq> CLOSE_PAREN \<and> r = None
            \<and> p' = printMessage p2 ''unmatched parentheses'' (columnStart (currentToken p)))
       \<or> (\<exists>p2. parseExpression n (consumeToken p) = Some (r, p2) \<and> r \<noteq> None
            \<and> currentType p2 = CLOSE_PAREN \<and> p' = consumeToken p2)"
  using assms by (auto simp: Let_def error_def split: option.splits if_splits)

lemma parseUnaryOpExpr_Suc_primary:
  "tokenTypeToUnaryOpcode (currentType p) = NONE_unary \<Longrightarrow>
     parseUnaryOpExpr (Suc n) p = parsePrimaryExpr n p"
  by simp

lemma parseUnaryOpExpr_Suc_operator:
  "tokenTypeToUnaryOpcode (currentType p) \<noteq> NONE_unary \<Longrightarrow>
     parseUnaryOpExpr (Suc n) p =
       (case parseUnaryOpExpr n (consumeToken p) of
          None \<Rightarrow> None
        | Some (None, p2) \<Rightarrow> Some (None, p2)
        | Some (Some operand, p2) \<Rightarrow>
            Some (Some (UnaryOp (currentStart p) (currentEnd p)
                    (tokenTypeToUnaryOpcode (currentType p)) operand), p2))"
  by (simp add: Let_def)

lemma parseBinaryOpRHS_Suc_stop:
  "binaryOpPrecedence (tokenTypeToBinaryOpcode (currentType p)) < exprPrecedence \<Longrightarrow>
     parseBinaryOpRHS (Suc n) exprPrecedence lhs p = Some (Some lhs, p)"
  by (simp add: Let_def)

lemma parseBinaryOpRHS_Suc_go:
  "\<not> binaryOpPrecedence (tokenTypeToBinaryOpcode (currentType p)) < exprPrecedence \<Longrightarrow>
     parseBinaryOpRHS (Suc n) exprPrecedence lhs p =
       (case parseUnaryOpExpr n (consumeToken p) of
          None \<Rightarrow> None
        | Some (None, p2) \<Rightarrow> Some (None, p2)
        | Some (Some rhs, p2) \<Rightarrow>
            if binaryOpPrecedence (tokenTypeToBinaryOpcode (currentType p))
                 < binaryOpPrecedence (tokenTypeToBinaryOpcode (currentType p2))
            then (case parseBinaryOpRHS n
                         (binaryOpPrecedence (tokenTypeToBinaryOpcode (currentType p)) + 1)
                         rhs p2 of
                    None \<Rightarrow> None
                  | Some (None, p3) \<Rightarrow> Some (None, p3)
                  | Some (Some rhs', p3) \<Rightarrow>
                      parseBinaryOpRHS n exprPrecedence
                        (BinaryOp (currentStart p) (currentEnd p)
                           (tokenTypeToBinaryOpcode (currentType p)) lhs rhs') p3)
            else parseBinaryOpRHS n exprPrecedence
                   (BinaryOp (currentStart p) (currentEnd p)
                      (tokenTypeToBinaryOpcode (currentType p)) lhs rhs) p2)"
  by (simp add: Let_def split: option.splits)

lemma parseBinaryOpRHS_Suc_cases:
  assumes "parseBinaryOpRHS (Suc n) f lhs p = Some (r, p')"
  defines "op \<equiv> tokenTypeToBinaryOpcode (currentType p)"
  shows "(binaryOpPrecedence op < f \<and> r = Some lhs \<and> p' = p)
       \<or> (\<not> binaryOpPrecedence op < f
            \<and> parseUnaryOpExpr n (consumeToken p) = Some (None, p') \<and> r = None)
       \<or> (\<not> binaryOpPrecedence op < f
            \<and> (\<exists>rhs p2. parseUnaryOpExpr n (consumeToken p) = Some (Some rhs, p2)
                 \<and> ((binaryOpPrecedence op
                       < binaryOpPrecedence (tokenTypeToBinaryOpcode (currentType p2))
                      \<and> parseBinaryOpRHS n (binaryOpPrecedence op + 1) rhs p2 = Some (None, p')
                      \<and> r = None)
                   \<or> (binaryOpPrecedence op
                         < binaryOpPrecedence (tokenTypeToBinaryOpcode (currentType p2))
                        \<and> (\<exists>rhs' p3.
                             parseBinaryOpRHS n (binaryOpPrecedence op + 1) rhs p2
                               = Some (Some rhs', p3)
                             \<and> parseBinaryOpRHS n f
                                 (BinaryOp (currentStart p) (currentEnd p) op lhs rhs') p3
                               = Some (r, p')))
                   \<or> (\<not> binaryOpPrecedence op
                           < binaryOpPrecedence (tokenTypeToBinaryOpcode (currentType p2))
                        \<and> parseBinaryOpRHS n f
                            (BinaryOp (currentStart p) (currentEnd p) op lhs rhs) p2
                          = Some (r, p')))))"
proof (cases "binaryOpPrecedence op < f")
  case True
  with assms(1) show ?thesis
    unfolding op_def by (simp add: parseBinaryOpRHS_Suc_stop)
next
  case False
  then have go: "\<not> binaryOpPrecedence (tokenTypeToBinaryOpcode (currentType p)) < f"
    by (simp add: op_def)
  from assms(1) go show ?thesis
    unfolding parseBinaryOpRHS_Suc_go [OF go] op_def
    by (auto split: option.splits if_splits)
qed

lemma parseCommand_loop_Suc_cases:
  assumes "parseCommand_loop (Suc n) args p = Some (args', p')"
  shows "(currentType p = EOFT \<and> args' = args \<and> p' = p)
       \<or> (currentType p \<noteq> EOFT
            \<and> (\<exists>arg p1. parseUnaryOpExpr n p = Some (Some arg, p1)
                 \<and> parseCommand_loop n (args @ [arg]) p1 = Some (args', p')))
       \<or> (currentType p \<noteq> EOFT
            \<and> (\<exists>p1. parseUnaryOpExpr n p = Some (None, p1)
                 \<and> parseCommand_loop n args (consumeToken p1) = Some (args', p')))"
  using assms by (auto split: option.splits if_splits)

declare parseExpression.simps(2) [simp del]
declare parsePrimaryExpr.simps(2) [simp del]
declare parseParenExpr.simps(2) [simp del]
declare parseUnaryOpExpr.simps(2) [simp del]
declare parseBinaryOpRHS.simps(2) [simp del]
declare parseCommand_loop.simps(2) [simp del]

subsection \<open>What a parse leaves behind\<close>

lemma remaining_consumeToken_le: "remaining (consumeToken p) \<le> remaining p"
  by (simp add: remaining_def consumeToken_def getNextToken_def currentType_def endOfInput_def
      split: list.splits)

lemma remaining_consumeToken_less:
  "currentType p \<noteq> EOFT \<Longrightarrow> remaining (consumeToken p) < remaining p"
  by (simp add: remaining_def consumeToken_def getNextToken_def currentType_def endOfInput_def
      split: list.splits)

lemma upcoming_consumeToken: "upcoming (consumeToken p) \<subseteq> upcoming p"
  by (auto simp: upcoming_def consumeToken_def getNextToken_def split: list.splits)

lemma errorContext_consumeToken [simp]: "errorContext (consumeToken p) = errorContext p"
  by (simp add: consumeToken_def getNextToken_def split: list.splits)

lemma printMessage_simps [simp]:
  "errorContext (printMessage p msg c) = errorContext p @ [(msg, c)]"
  "currentToken (printMessage p msg c) = currentToken p"
  "scanner (printMessage p msg c) = scanner p"
  "currentType (printMessage p msg c) = currentType p"
  "remaining (printMessage p msg c) = remaining p"
  "upcoming (printMessage p msg c) = upcoming p"
  by (simp_all add: printMessage_def currentType_def remaining_def upcoming_def)

lemma parsePrimaryExpr_1_ok:
  assumes "currentType p \<noteq> OPEN_PAREN"
  shows "\<exists>r p'. parsePrimaryExpr (Suc 0) p = Some (r, p') \<and> ok_operand p r p'"
  using assms remaining_consumeToken_less [of p] remaining_consumeToken_le [of p]
    upcoming_consumeToken [of p]
  by (cases "currentType p")
     (simp_all add: parsePrimaryExpr.simps(2) ok_operand_def ok_strict_def ok_weak_def
        reported_def error_def parseIdentifierExpr_def parseIntegerExpr_def parseFloatExpr_def
        parseStringExpr_def parseVariableExpr_def Let_def)

lemma ok_operand_strict: "ok_operand p r p' \<Longrightarrow> ok_strict p r p'"
  by (simp add: ok_operand_def)

lemma ok_strict_weak: "ok_strict p r p' \<Longrightarrow> ok_weak p r p'"
  by (simp add: ok_strict_def)

lemma ok_strict_then: "ok_strict p (Some e) p1 \<Longrightarrow> ok_weak p1 r p' \<Longrightarrow> ok_strict p r p'"
  by (auto simp: ok_strict_def ok_weak_def reported_def split: option.splits)

lemma ok_weak_then: "ok_weak p (Some e) p1 \<Longrightarrow> ok_weak p1 r p' \<Longrightarrow> ok_weak p r p'"
  by (auto simp: ok_weak_def reported_def split: option.splits)

lemma ok_weak_consumed: "ok_weak (consumeToken p) r p' \<Longrightarrow> ok_weak p r p'"
  using remaining_consumeToken_le [of p] upcoming_consumeToken [of p]
  by (auto simp: ok_weak_def reported_def split: option.splits)

lemma ok_operand_consumed:
  "remaining (consumeToken p) < remaining p \<Longrightarrow> ok_weak (consumeToken p) r p' \<Longrightarrow>
     ok_operand p r p'"
  using upcoming_consumeToken [of p]
  by (auto simp: ok_operand_def ok_strict_def ok_weak_def reported_def split: option.splits)

lemma ok_weak_unmatched:
  "ok_weak p (Some e) p2 \<Longrightarrow> ok_weak p None (printMessage p2 msg c)"
  by (auto simp: ok_weak_def reported_def)

lemma ok_strict_closed:
  "ok_strict p (Some e) p2 \<Longrightarrow> ok_strict p (Some e) (consumeToken p2)"
  using remaining_consumeToken_le [of p2] upcoming_consumeToken [of p2]
  by (auto simp: ok_strict_def ok_weak_def reported_def)

lemma ok_strict_None: "ok_weak p None p' \<Longrightarrow> ok_strict p None p'"
  by (simp add: ok_strict_def)

lemma ok_weak_same: "ok_weak p (Some e) p' \<Longrightarrow> ok_weak p (Some e') p'"
  by (simp add: ok_weak_def reported_def)

lemma ok_strict_same: "ok_strict p (Some e) p' \<Longrightarrow> ok_strict p (Some e') p'"
  by (simp add: ok_strict_def ok_weak_def reported_def)

lemma ok_weak_refl: "ok_weak p (Some e) p"
  by (simp add: ok_weak_def reported_def)

lemma parse_ok:
  "(\<forall>p r p'. parseExpression n p = Some (r, p') \<longrightarrow> ok_strict p r p')
 \<and> (\<forall>p r p'. parsePrimaryExpr n p = Some (r, p') \<longrightarrow> ok_operand p r p')
 \<and> (\<forall>p r p'. parseParenExpr n p = Some (r, p') \<longrightarrow> ok_strict (consumeToken p) r p')
 \<and> (\<forall>p r p'. parseUnaryOpExpr n p = Some (r, p') \<longrightarrow> ok_operand p r p')
 \<and> (\<forall>f l p r p'. parseBinaryOpRHS n f l p = Some (r, p') \<longrightarrow> ok_weak p r p')"
proof (induction n)
  case 0
  show ?case by simp
next
  case (Suc n)
  then have E: "\<And>p r p'. parseExpression n p = Some (r, p') \<Longrightarrow> ok_strict p r p'"
    and P: "\<And>p r p'. parsePrimaryExpr n p = Some (r, p') \<Longrightarrow> ok_operand p r p'"
    and Pa: "\<And>p r p'. parseParenExpr n p = Some (r, p') \<Longrightarrow> ok_strict (consumeToken p) r p'"
    and U: "\<And>p r p'. parseUnaryOpExpr n p = Some (r, p') \<Longrightarrow> ok_operand p r p'"
    and B: "\<And>f l p r p'. parseBinaryOpRHS n f l p = Some (r, p') \<Longrightarrow> ok_weak p r p'"
    by blast+
  have E': "ok_strict p r p'" if "parseExpression (Suc n) p = Some (r, p')" for p r p'
  proof -
    from parseExpression_Suc_cases [OF that] consider
      (fail) "parseUnaryOpExpr n p = Some (None, p')" "r = None"
      | (go) lhs p1 where "parseUnaryOpExpr n p = Some (Some lhs, p1)"
          "parseBinaryOpRHS n 0 lhs p1 = Some (r, p')"
      by blast
    then show ?thesis
    proof cases
      case fail
      then show ?thesis using U ok_operand_strict by blast
    next
      case go
      from U [OF go(1)] B [OF go(2)] show ?thesis
        by (blast intro: ok_strict_then ok_operand_strict)
    qed
  qed
  have P': "ok_operand p r p'" if "parsePrimaryExpr (Suc n) p = Some (r, p')" for p r p'
  proof (cases "currentType p = OPEN_PAREN")
    case True
    then have "parseParenExpr n p = Some (r, p')"
      using that by (simp add: parsePrimaryExpr_Suc_paren)
    from Pa [OF this] have "ok_weak (consumeToken p) r p'"
      by (rule ok_strict_weak)
    moreover from True have "remaining (consumeToken p) < remaining p"
      by (intro remaining_consumeToken_less) simp
    ultimately show ?thesis by (intro ok_operand_consumed)
  next
    case False
    from that have "parsePrimaryExpr (Suc 0) p = Some (r, p')"
      unfolding parsePrimaryExpr_Suc_other [OF False, of n] .
    with parsePrimaryExpr_1_ok [OF False] show ?thesis by auto
  qed
  have Pa': "ok_strict (consumeToken p) r p'" if "parseParenExpr (Suc n) p = Some (r, p')" for p r p'
  proof -
    from parseParenExpr_Suc_cases [OF that] consider
      (fail) "parseExpression n (consumeToken p) = Some (None, p')" "r = None"
      | (unmatched) expr p2 where "parseExpression n (consumeToken p) = Some (Some expr, p2)"
          "r = None" "p' = printMessage p2 ''unmatched parentheses'' (columnStart (currentToken p))"
      | (closed) p2 where "parseExpression n (consumeToken p) = Some (r, p2)" "r \<noteq> None"
          "p' = consumeToken p2"
      by blast
    then show ?thesis
    proof cases
      case fail
      then show ?thesis using E by blast
    next
      case unmatched
      from E [OF unmatched(1)] show ?thesis
        unfolding unmatched(2,3)
        by (intro ok_strict_None ok_weak_unmatched) (rule ok_strict_weak)
    next
      case closed
      from closed(2) obtain e where "r = Some e" by auto
      with E [OF closed(1)] show ?thesis
        unfolding closed(3) by (simp add: ok_strict_closed)
    qed
  qed
  have U': "ok_operand p r p'" if "parseUnaryOpExpr (Suc n) p = Some (r, p')" for p r p'
  proof (cases "tokenTypeToUnaryOpcode (currentType p) = NONE_unary")
    case True
    with that P show ?thesis by (simp add: parseUnaryOpExpr_Suc_primary)
  next
    case False
    then have less: "remaining (consumeToken p) < remaining p"
      by (intro remaining_consumeToken_less tokenTypeToUnaryOpcode_EOFT)
    from that False obtain r1 where
      inner: "parseUnaryOpExpr n (consumeToken p) = Some (r1, p')"
      and same: "(r = None) = (r1 = None)"
      by (auto simp: parseUnaryOpExpr_Suc_operator split: option.splits)
    from U [OF inner] have "ok_weak (consumeToken p) r1 p'"
      by (intro ok_strict_weak ok_operand_strict)
    with same have "ok_weak (consumeToken p) r p'"
      by (cases r; cases r1) (simp_all add: ok_weak_def reported_def)
    with less show ?thesis by (intro ok_operand_consumed)
  qed
  have Uw: "ok_weak p r p'" if "parseUnaryOpExpr n p = Some (r, p')" for p r p'
    using U [OF that] by (blast intro: ok_strict_weak ok_operand_strict)
  have B': "ok_weak p r p'" if "parseBinaryOpRHS (Suc n) f l p = Some (r, p')" for f l p r p'
  proof -
    define op where "op = tokenTypeToBinaryOpcode (currentType p)"
    from parseBinaryOpRHS_Suc_cases [OF that, folded op_def] consider
      (stop) "r = Some l" "p' = p"
      | (fail) "parseUnaryOpExpr n (consumeToken p) = Some (None, p')" "r = None"
      | (inner_fail) rhs p2 where "parseUnaryOpExpr n (consumeToken p) = Some (Some rhs, p2)"
          "parseBinaryOpRHS n (binaryOpPrecedence op + 1) rhs p2 = Some (None, p')" "r = None"
      | (inner) rhs p2 rhs' p3 where "parseUnaryOpExpr n (consumeToken p) = Some (Some rhs, p2)"
          "parseBinaryOpRHS n (binaryOpPrecedence op + 1) rhs p2 = Some (Some rhs', p3)"
          "parseBinaryOpRHS n f (BinaryOp (currentStart p) (currentEnd p) op l rhs') p3
             = Some (r, p')"
      | (again) rhs p2 where "parseUnaryOpExpr n (consumeToken p) = Some (Some rhs, p2)"
          "parseBinaryOpRHS n f (BinaryOp (currentStart p) (currentEnd p) op l rhs) p2
             = Some (r, p')"
      by blast
    then show ?thesis
    proof cases
      case stop
      then show ?thesis by (simp add: ok_weak_refl)
    next
      case fail
      from Uw [OF fail(1)] show ?thesis
        unfolding fail(2) by (rule ok_weak_consumed)
    next
      case inner_fail
      from ok_weak_then [OF Uw [OF inner_fail(1)] B [OF inner_fail(2)]] show ?thesis
        unfolding inner_fail(3) by (rule ok_weak_consumed)
    next
      case inner
      from ok_weak_then [OF Uw [OF inner(1)] B [OF inner(2)]]
      have "ok_weak (consumeToken p) (Some rhs') p3" .
      from ok_weak_then [OF this B [OF inner(3)]] show ?thesis
        by (rule ok_weak_consumed)
    next
      case again
      from ok_weak_then [OF Uw [OF again(1)] B [OF again(2)]] show ?thesis
        by (rule ok_weak_consumed)
    qed
  qed
  show ?case using E' P' Pa' U' B' by blast
qed

subsection \<open>A larger bound gives the same result\<close>

lemma parse_Suc_mono:
  "(\<forall>p r. parseExpression n p = Some r \<longrightarrow> parseExpression (Suc n) p = Some r)
 \<and> (\<forall>p r. parsePrimaryExpr n p = Some r \<longrightarrow> parsePrimaryExpr (Suc n) p = Some r)
 \<and> (\<forall>p r. parseParenExpr n p = Some r \<longrightarrow> parseParenExpr (Suc n) p = Some r)
 \<and> (\<forall>p r. parseUnaryOpExpr n p = Some r \<longrightarrow> parseUnaryOpExpr (Suc n) p = Some r)
 \<and> (\<forall>f l p r. parseBinaryOpRHS n f l p = Some r \<longrightarrow> parseBinaryOpRHS (Suc n) f l p = Some r)"
proof (induction n)
  case 0
  show ?case by simp
next
  case (Suc n)
  then have E: "\<And>p r. parseExpression n p = Some r \<Longrightarrow> parseExpression (Suc n) p = Some r"
    and P: "\<And>p r. parsePrimaryExpr n p = Some r \<Longrightarrow> parsePrimaryExpr (Suc n) p = Some r"
    and Pa: "\<And>p r. parseParenExpr n p = Some r \<Longrightarrow> parseParenExpr (Suc n) p = Some r"
    and U: "\<And>p r. parseUnaryOpExpr n p = Some r \<Longrightarrow> parseUnaryOpExpr (Suc n) p = Some r"
    and B: "\<And>f l p r. parseBinaryOpRHS n f l p = Some r \<Longrightarrow> parseBinaryOpRHS (Suc n) f l p = Some r"
    by blast+
  have E': "parseExpression (Suc (Suc n)) p = Some r" if "parseExpression (Suc n) p = Some r" for p r
  proof -
    obtain res p' where r: "r = (res, p')" by (cases r)
    from parseExpression_Suc_cases [OF that [unfolded r]] show ?thesis
    proof (elim disjE conjE exE)
      assume "parseUnaryOpExpr n p = Some (None, p')" "res = None"
      then show ?thesis
        using U [of p "(None, p')"] by (simp add: parseExpression.simps(2) [of "Suc n"] r)
    next
      fix lhs p1
      assume "parseUnaryOpExpr n p = Some (Some lhs, p1)"
        "parseBinaryOpRHS n 0 lhs p1 = Some (res, p')"
      then show ?thesis
        using U [of p "(Some lhs, p1)"] B [of 0 lhs p1 r]
        by (simp add: parseExpression.simps(2) [of "Suc n"] r)
    qed
  qed
  have P': "parsePrimaryExpr (Suc (Suc n)) p = Some r" if "parsePrimaryExpr (Suc n) p = Some r" for p r
  proof (cases "currentType p = OPEN_PAREN")
    case True
    with that Pa [of p r] show ?thesis by (simp add: parsePrimaryExpr_Suc_paren)
  next
    case False
    from that show ?thesis
      unfolding parsePrimaryExpr_Suc_other [OF False, of n]
        parsePrimaryExpr_Suc_other [OF False, of "Suc n"] .
  qed
  have Pa': "parseParenExpr (Suc (Suc n)) p = Some r" if "parseParenExpr (Suc n) p = Some r" for p r
  proof -
    from that obtain x where x: "parseExpression n (consumeToken p) = Some x"
      by (auto simp: parseParenExpr.simps(2) Let_def split: option.splits)
    from that show ?thesis
      by (simp add: parseParenExpr.simps(2) [of "Suc n"] parseParenExpr.simps(2) [of n] E [OF x] x)
  qed
  have U': "parseUnaryOpExpr (Suc (Suc n)) p = Some r" if "parseUnaryOpExpr (Suc n) p = Some r" for p r
  proof (cases "tokenTypeToUnaryOpcode (currentType p) = NONE_unary")
    case True
    with that P [of p r] show ?thesis by (simp add: parseUnaryOpExpr_Suc_primary)
  next
    case False
    from that obtain x where x: "parseUnaryOpExpr n (consumeToken p) = Some x"
      by (auto simp: parseUnaryOpExpr_Suc_operator [OF False] split: option.splits)
    from that show ?thesis
      by (simp add: parseUnaryOpExpr_Suc_operator [OF False] U [OF x] x)
  qed
  have B': "parseBinaryOpRHS (Suc (Suc n)) f l p = Some r"
    if "parseBinaryOpRHS (Suc n) f l p = Some r" for f l p r
  proof (cases "binaryOpPrecedence (tokenTypeToBinaryOpcode (currentType p)) < f")
    case True
    with that show ?thesis by (simp add: parseBinaryOpRHS_Suc_stop)
  next
    case False
    note go = parseBinaryOpRHS_Suc_go [OF False]
    from that obtain x where x: "parseUnaryOpExpr n (consumeToken p) = Some x"
      by (auto simp: go split: option.splits)
    obtain rx p2 where xp: "x = (rx, p2)" by (cases x)
    show ?thesis
    proof (cases rx)
      case None
      note x' = x [unfolded xp None]
      from that have "r = (None, p2)" by (simp add: go x')
      then show ?thesis by (simp add: go U [OF x'])
    next
      case (Some rhs)
      note x' = x [unfolded xp Some]
      show ?thesis
      proof (cases "binaryOpPrecedence (tokenTypeToBinaryOpcode (currentType p))
               < binaryOpPrecedence (tokenTypeToBinaryOpcode (currentType p2))")
        case False
        from that False have
          "parseBinaryOpRHS n f (BinaryOp (currentStart p) (currentEnd p)
             (tokenTypeToBinaryOpcode (currentType p)) l rhs) p2 = Some r"
          by (simp add: go x')
        from B [OF this] False show ?thesis by (simp add: go U [OF x'])
      next
        case True
        from that True obtain y where
          y: "parseBinaryOpRHS n
                (binaryOpPrecedence (tokenTypeToBinaryOpcode (currentType p)) + 1) rhs p2 = Some y"
          by (auto simp: go x' split: option.splits)
        obtain ry p3 where yp: "y = (ry, p3)" by (cases y)
        show ?thesis
        proof (cases ry)
          case None
          note y' = y [unfolded yp None]
          from that True have "r = (None, p3)" by (simp add: go x' y')
          with True show ?thesis by (simp add: go U [OF x'] B [OF y'])
        next
          case (Some rhs')
          note y' = y [unfolded yp Some]
          from that True have
            "parseBinaryOpRHS n f (BinaryOp (currentStart p) (currentEnd p)
               (tokenTypeToBinaryOpcode (currentType p)) l rhs') p3 = Some r"
            by (simp add: go x' y')
          from B [OF this] True show ?thesis by (simp add: go U [OF x'] B [OF y'])
        qed
      qed
    qed
  qed
  show ?case using E' P' Pa' U' B' by blast
qed

lemmas parseExpression_Suc_mono = parse_Suc_mono [THEN conjunct1, rule_format]
lemmas parsePrimaryExpr_Suc_mono = parse_Suc_mono [THEN conjunct2, THEN conjunct1, rule_format]
lemmas parseParenExpr_Suc_mono =
  parse_Suc_mono [THEN conjunct2, THEN conjunct2, THEN conjunct1, rule_format]
lemmas parseUnaryOpExpr_Suc_mono =
  parse_Suc_mono [THEN conjunct2, THEN conjunct2, THEN conjunct2, THEN conjunct1, rule_format]
lemmas parseBinaryOpRHS_Suc_mono =
  parse_Suc_mono [THEN conjunct2, THEN conjunct2, THEN conjunct2, THEN conjunct2, rule_format]

lemma parseExpression_mono:
  assumes "parseExpression n p = Some r" and "n \<le> m"
  shows "parseExpression m p = Some r"
proof -
  have "parseExpression (n + k) p = Some r" for k
    by (induction k) (simp_all add: assms(1) parseExpression_Suc_mono)
  with assms(2) show ?thesis by (metis le_add_diff_inverse)
qed

lemma parsePrimaryExpr_mono:
  assumes "parsePrimaryExpr n p = Some r" and "n \<le> m"
  shows "parsePrimaryExpr m p = Some r"
proof -
  have "parsePrimaryExpr (n + k) p = Some r" for k
    by (induction k) (simp_all add: assms(1) parsePrimaryExpr_Suc_mono)
  with assms(2) show ?thesis by (metis le_add_diff_inverse)
qed

lemma parseParenExpr_mono:
  assumes "parseParenExpr n p = Some r" and "n \<le> m"
  shows "parseParenExpr m p = Some r"
proof -
  have "parseParenExpr (n + k) p = Some r" for k
    by (induction k) (simp_all add: assms(1) parseParenExpr_Suc_mono)
  with assms(2) show ?thesis by (metis le_add_diff_inverse)
qed

lemma parseUnaryOpExpr_mono:
  assumes "parseUnaryOpExpr n p = Some r" and "n \<le> m"
  shows "parseUnaryOpExpr m p = Some r"
proof -
  have "parseUnaryOpExpr (n + k) p = Some r" for k
    by (induction k) (simp_all add: assms(1) parseUnaryOpExpr_Suc_mono)
  with assms(2) show ?thesis by (metis le_add_diff_inverse)
qed

lemma parseBinaryOpRHS_mono:
  assumes "parseBinaryOpRHS n f l p = Some r" and "n \<le> m"
  shows "parseBinaryOpRHS m f l p = Some r"
proof -
  have "parseBinaryOpRHS (n + k) f l p = Some r" for k
    by (induction k) (simp_all add: assms(1) parseBinaryOpRHS_Suc_mono)
  with assms(2) show ?thesis by (metis le_add_diff_inverse)
qed

lemma parseCommand_loop_Suc_mono:
  "parseCommand_loop n args p = Some r \<Longrightarrow> parseCommand_loop (Suc n) args p = Some r"
proof (induction n arbitrary: args p)
  case 0
  then show ?case by simp
next
  case (Suc n)
  show ?case
  proof (cases "currentType p = EOFT")
    case True
    with Suc.prems show ?thesis by (simp add: parseCommand_loop.simps(2))
  next
    case False
    from Suc.prems False obtain x where x: "parseUnaryOpExpr n p = Some x"
      by (auto simp: parseCommand_loop.simps(2) split: option.splits)
    obtain rx p1 where xp: "x = (rx, p1)" by (cases x)
    show ?thesis
    proof (cases rx)
      case None
      note x' = x [unfolded xp None]
      from Suc.prems False have "parseCommand_loop n args (consumeToken p1) = Some r"
        by (simp add: parseCommand_loop.simps(2) [of n] x')
      from Suc.IH [OF this] False show ?thesis
        by (simp add: parseCommand_loop.simps(2) [of "Suc n"] parseUnaryOpExpr_Suc_mono [OF x'])
    next
      case (Some arg)
      note x' = x [unfolded xp Some]
      from Suc.prems False have "parseCommand_loop n (args @ [arg]) p1 = Some r"
        by (simp add: parseCommand_loop.simps(2) [of n] x')
      from Suc.IH [OF this] False show ?thesis
        by (simp add: parseCommand_loop.simps(2) [of "Suc n"] parseUnaryOpExpr_Suc_mono [OF x'])
    qed
  qed
qed

lemma parseCommand_loop_mono:
  assumes "parseCommand_loop n args p = Some r" and "n \<le> m"
  shows "parseCommand_loop m args p = Some r"
proof -
  have "parseCommand_loop (n + k) args p = Some r" for k
    by (induction k) (simp_all add: assms(1) parseCommand_loop_Suc_mono)
  with assms(2) show ?thesis by (metis le_add_diff_inverse)
qed

lemma parseCommand_mono:
  assumes "parseCommand n p = Some r" and "n \<le> m"
  shows "parseCommand m p = Some r"
proof (cases "currentType (consumeToken p) \<noteq> IDENTIFIER")
  case True
  with assms(1) show ?thesis by (simp add: parseCommand_def Let_def)
next
  case False
  from assms(1) False obtain x where
    x: "parseCommand_loop n [] (consumeToken (consumeToken p)) = Some x"
    by (auto simp: parseCommand_def Let_def split: option.splits)
  from assms(1) False show ?thesis
    by (simp add: parseCommand_def Let_def x parseCommand_loop_mono [OF x assms(2)])
qed

lemmas parseExpression_ok = parse_ok [THEN conjunct1, rule_format]
lemmas parsePrimaryExpr_ok = parse_ok [THEN conjunct2, THEN conjunct1, rule_format]
lemmas parseParenExpr_ok = parse_ok [THEN conjunct2, THEN conjunct2, THEN conjunct1, rule_format]
lemmas parseUnaryOpExpr_ok =
  parse_ok [THEN conjunct2, THEN conjunct2, THEN conjunct2, THEN conjunct1, rule_format]
lemmas parseBinaryOpRHS_ok =
  parse_ok [THEN conjunct2, THEN conjunct2, THEN conjunct2, THEN conjunct2, rule_format]

lemma parseUnaryOpExpr_less:
  "parseUnaryOpExpr n p = Some (Some e, p') \<Longrightarrow> remaining p' < remaining p"
  by (drule parseUnaryOpExpr_ok) (simp add: ok_operand_def ok_strict_def)

lemma parseUnaryOpExpr_le:
  "parseUnaryOpExpr n p = Some (r, p') \<Longrightarrow> remaining p' \<le> remaining p"
  by (drule parseUnaryOpExpr_ok) (simp add: ok_operand_def ok_strict_def ok_weak_def)

lemma parseBinaryOpRHS_le:
  "parseBinaryOpRHS n f l p = Some (r, p') \<Longrightarrow> remaining p' \<le> remaining p"
  by (drule parseBinaryOpRHS_ok) (simp add: ok_weak_def)

lemma parseUnaryOpExpr_skip_less:
  assumes "parseUnaryOpExpr n p = Some (None, p')" and "currentType p \<noteq> EOFT"
  shows "remaining (consumeToken p') < remaining p"
proof -
  from parseUnaryOpExpr_ok [OF assms(1)]
  have le: "remaining p' \<le> remaining p"
    and alt: "remaining p' < remaining p
      \<or> (currentToken p' = currentToken p \<and> scanner p' = scanner p)"
    by (simp_all add: ok_operand_def ok_strict_def ok_weak_def)
  from alt show ?thesis
  proof
    assume "remaining p' < remaining p"
    with remaining_consumeToken_le [of p'] show ?thesis by simp
  next
    assume same: "currentToken p' = currentToken p \<and> scanner p' = scanner p"
    with assms(2) have "currentType p' \<noteq> EOFT" by (simp add: currentType_def)
    from remaining_consumeToken_less [OF this] le show ?thesis by simp
  qed
qed

subsection \<open>Every parse returns\<close>

lemma parse_total:
  "(\<forall>p. 4 * remaining p + 3 \<le> n \<longrightarrow> parseExpression n p \<noteq> None)
 \<and> (\<forall>p. 4 * remaining p + 1 \<le> n \<longrightarrow> parsePrimaryExpr n p \<noteq> None)
 \<and> (\<forall>p. 4 * remaining (consumeToken p) + 4 \<le> n \<longrightarrow> parseParenExpr n p \<noteq> None)
 \<and> (\<forall>p. 4 * remaining p + 2 \<le> n \<longrightarrow> parseUnaryOpExpr n p \<noteq> None)
 \<and> (\<forall>f l p. 4 * remaining p + 3 \<le> n \<longrightarrow> parseBinaryOpRHS n f l p \<noteq> None)"
proof (induction n)
  case 0
  show ?case by simp
next
  case (Suc n)
  then have E: "\<And>p. 4 * remaining p + 3 \<le> n \<Longrightarrow> parseExpression n p \<noteq> None"
    and P: "\<And>p. 4 * remaining p + 1 \<le> n \<Longrightarrow> parsePrimaryExpr n p \<noteq> None"
    and Pa: "\<And>p. 4 * remaining (consumeToken p) + 4 \<le> n \<Longrightarrow> parseParenExpr n p \<noteq> None"
    and U: "\<And>p. 4 * remaining p + 2 \<le> n \<Longrightarrow> parseUnaryOpExpr n p \<noteq> None"
    and B: "\<And>f l p. 4 * remaining p + 3 \<le> n \<Longrightarrow> parseBinaryOpRHS n f l p \<noteq> None"
    by blast+
  have E': "parseExpression (Suc n) p \<noteq> None" if "4 * remaining p + 3 \<le> Suc n" for p
  proof -
    from that U [of p] obtain r p1 where u: "parseUnaryOpExpr n p = Some (r, p1)" by auto
    show ?thesis
    proof (cases r)
      case None
      with u show ?thesis by (simp add: parseExpression.simps(2))
    next
      case (Some lhs)
      from parseUnaryOpExpr_less [OF u [unfolded Some]] that
      have "4 * remaining p1 + 3 \<le> n" by simp
      from B [OF this] u Some show ?thesis by (simp add: parseExpression.simps(2))
    qed
  qed
  have P': "parsePrimaryExpr (Suc n) p \<noteq> None" if "4 * remaining p + 1 \<le> Suc n" for p
  proof (cases "currentType p = OPEN_PAREN")
    case True
    then have "remaining (consumeToken p) < remaining p"
      by (intro remaining_consumeToken_less) simp
    with that have "4 * remaining (consumeToken p) + 4 \<le> n" by simp
    from Pa [OF this] True show ?thesis by (simp add: parsePrimaryExpr_Suc_paren)
  next
    case False
    from parsePrimaryExpr_1_ok [OF False] show ?thesis
      unfolding parsePrimaryExpr_Suc_other [OF False, of n] by auto
  qed
  have Pa': "parseParenExpr (Suc n) p \<noteq> None"
    if "4 * remaining (consumeToken p) + 4 \<le> Suc n" for p
  proof -
    from that have "4 * remaining (consumeToken p) + 3 \<le> n" by simp
    from E [OF this] show ?thesis
      by (auto simp: parseParenExpr.simps(2) Let_def error_def split: option.splits)
  qed
  have U': "parseUnaryOpExpr (Suc n) p \<noteq> None" if "4 * remaining p + 2 \<le> Suc n" for p
  proof (cases "tokenTypeToUnaryOpcode (currentType p) = NONE_unary")
    case True
    with that P [of p] show ?thesis by (simp add: parseUnaryOpExpr_Suc_primary)
  next
    case False
    then have "remaining (consumeToken p) < remaining p"
      by (intro remaining_consumeToken_less tokenTypeToUnaryOpcode_EOFT)
    with that have "4 * remaining (consumeToken p) + 2 \<le> n" by simp
    from U [OF this] show ?thesis
      by (auto simp: parseUnaryOpExpr_Suc_operator [OF False] split: option.splits)
  qed
  have B': "parseBinaryOpRHS (Suc n) f l p \<noteq> None" if "4 * remaining p + 3 \<le> Suc n" for f l p
  proof (cases "binaryOpPrecedence (tokenTypeToBinaryOpcode (currentType p)) < f")
    case True
    then show ?thesis by (simp add: parseBinaryOpRHS_Suc_stop)
  next
    case False
    note go = parseBinaryOpRHS_Suc_go [OF False]
    from that remaining_consumeToken_le [of p]
    have "4 * remaining (consumeToken p) + 2 \<le> n" by simp
    from U [OF this] obtain r p2 where
      u: "parseUnaryOpExpr n (consumeToken p) = Some (r, p2)" by auto
    show ?thesis
    proof (cases r)
      case None
      with u show ?thesis by (simp add: go)
    next
      case (Some rhs)
      note u' = u [unfolded Some]
      from parseUnaryOpExpr_less [OF u'] that remaining_consumeToken_le [of p]
      have fuel2: "4 * remaining p2 + 3 \<le> n" by simp
      show ?thesis
      proof (cases "binaryOpPrecedence (tokenTypeToBinaryOpcode (currentType p))
               < binaryOpPrecedence (tokenTypeToBinaryOpcode (currentType p2))")
        case False
        with B [OF fuel2] show ?thesis by (simp add: go u')
      next
        case True
        from B [OF fuel2] obtain ry p3 where
          y: "parseBinaryOpRHS n
                (binaryOpPrecedence (tokenTypeToBinaryOpcode (currentType p)) + 1) rhs p2
              = Some (ry, p3)"
          by fastforce
        show ?thesis
        proof (cases ry)
          case None
          with y True show ?thesis by (simp add: go u')
        next
          case (Some rhs')
          from parseBinaryOpRHS_le [OF y] fuel2 have "4 * remaining p3 + 3 \<le> n" by simp
          from B [OF this] y True Some show ?thesis by (simp add: go u')
        qed
      qed
    qed
  qed
  show ?case using E' P' Pa' U' B' by blast
qed

lemma parseCommand_loop_total:
  "4 * remaining p + 3 \<le> n \<Longrightarrow> parseCommand_loop n args p \<noteq> None"
proof (induction n arbitrary: args p)
  case 0
  then show ?case by simp
next
  case (Suc n)
  show ?case
  proof (cases "currentType p = EOFT")
    case True
    then show ?thesis by (simp add: parseCommand_loop.simps(2))
  next
    case False
    from Suc.prems have "4 * remaining p + 2 \<le> n" by simp
    with parse_total [of n] obtain r p1 where
      u: "parseUnaryOpExpr n p = Some (r, p1)" by fastforce
    show ?thesis
    proof (cases r)
      case None
      from parseUnaryOpExpr_skip_less [OF u [unfolded None] False] Suc.prems
      have "4 * remaining (consumeToken p1) + 3 \<le> n" by simp
      from Suc.IH [OF this] u None False show ?thesis
        by (simp add: parseCommand_loop.simps(2))
    next
      case (Some arg)
      from parseUnaryOpExpr_less [OF u [unfolded Some]] Suc.prems
      have "4 * remaining p1 + 3 \<le> n" by simp
      from Suc.IH [OF this] u Some False show ?thesis
        by (simp add: parseCommand_loop.simps(2))
    qed
  qed
qed

subsection \<open>Precedence climbing over literals and operators\<close>

lemma parserAt_Cons:
  "parserAt (t # ts) es = \<lparr>currentToken = t, scanner = ts, errorContext = es\<rparr>"
  by (simp add: parserAt_def consumeToken_def getNextToken_def)

lemma parserAt_Nil:
  "parserAt [] es = \<lparr>currentToken = endOfInput, scanner = [], errorContext = es\<rparr>"
  by (simp add: parserAt_def consumeToken_def getNextToken_def)

lemma consumeToken_parserAt [simp]: "consumeToken (parserAt (t # ts) es) = parserAt ts es"
  by (simp add: parserAt_def consumeToken_def getNextToken_def split: list.splits)

lemma current_parserAt_Cons [simp]:
  "currentToken (parserAt (t # ts) es) = t"
  "currentType (parserAt (t # ts) es) = type t"
  "currentStart (parserAt (t # ts) es) = columnStart t"
  "currentEnd (parserAt (t # ts) es) = columnEnd t"
  "currentStr (parserAt (t # ts) es) = str t"
  "currentCStr (parserAt (t # ts) es) = str t"
  by (simp_all add: parserAt_Cons currentType_def currentStart_def currentEnd_def
      currentStr_def currentCStr_def)

lemma errorContext_parserAt [simp]: "errorContext (parserAt ts es) = es"
  by (simp add: parserAt_def)

lemma joined_append [simp]: "joined (ps @ qs) = joined ps @ joined qs"
  by (induction ps) auto

lemma binds_at_least_mono: "binds_at_least q t \<Longrightarrow> q' \<le> q \<Longrightarrow> binds_at_least q' t"
  by (cases t) auto

lemma tokenTypeToUnaryOpcode_INTEGER [simp]: "tokenTypeToUnaryOpcode INTEGER = NONE_unary"
  by (simp add: tokenTypeToUnaryOpcode_simps)

lemma tokenTypeToBinaryOpcode_INTEGER [simp]: "tokenTypeToBinaryOpcode INTEGER = NONE_binary"
  by (simp add: tokenTypeToBinaryOpcode_def findWithDefault_def binaryTokenMap_def)

lemma parseUnaryOpExpr_INTEGER:
  "type t = INTEGER \<Longrightarrow>
     parseUnaryOpExpr (Suc (Suc n)) (parserAt (t # ts) es)
       = Some (Some (IntegerExpr (columnStart t) (columnEnd t) (atoll (str t))), parserAt ts es)"
  by (simp add: parseUnaryOpExpr_Suc_primary parsePrimaryExpr.simps(2) parseIntegerExpr_def)

lemma parseBinaryOpRHS_operator_INTEGER:
  assumes "f \<le> binaryOpPrecedence (tokenTypeToBinaryOpcode (type opTok))"
    and "type t = INTEGER"
  shows "parseBinaryOpRHS (Suc (Suc (Suc n))) f lhs (parserAt (opTok # t # ts) es) =
    (if binaryOpPrecedence (tokenTypeToBinaryOpcode (type opTok))
          < currentPrecedence (parserAt ts es)
     then (case parseBinaryOpRHS (Suc (Suc n))
                 (binaryOpPrecedence (tokenTypeToBinaryOpcode (type opTok)) + 1)
                 (IntegerExpr (columnStart t) (columnEnd t) (atoll (str t)))
                 (parserAt ts es) of
             None \<Rightarrow> None
           | Some (None, p3) \<Rightarrow> Some (None, p3)
           | Some (Some rhs', p3) \<Rightarrow>
               parseBinaryOpRHS (Suc (Suc n)) f
                 (BinaryOp (columnStart opTok) (columnEnd opTok)
                    (tokenTypeToBinaryOpcode (type opTok)) lhs rhs') p3)
     else parseBinaryOpRHS (Suc (Suc n)) f
            (BinaryOp (columnStart opTok) (columnEnd opTok)
               (tokenTypeToBinaryOpcode (type opTok)) lhs
               (IntegerExpr (columnStart t) (columnEnd t) (atoll (str t))))
            (parserAt ts es))"
proof -
  have go: "\<not> binaryOpPrecedence
               (tokenTypeToBinaryOpcode (currentType (parserAt (opTok # t # ts) es))) < f"
    using assms(1) by simp
  show ?thesis
    unfolding parseBinaryOpRHS_Suc_go [OF go]
    by (simp add: parseUnaryOpExpr_INTEGER [OF assms(2)] currentPrecedence_def
        split: option.splits)
qed

lemma climb:
  assumes wf: "\<forall>(opTok, t) \<in> set ps.
                 tokenTypeToBinaryOpcode (type opTok) \<noteq> NONE_binary \<and> type t = INTEGER"
    and stop: "tokenTypeToBinaryOpcode (currentType (parserAt rest es)) = NONE_binary"
    and floor: "0 \<le> f"
    and lhs: "grouped lhs" "binds_at_least f lhs"
      "binds_at_least (currentPrecedence (parserAt (joined ps @ rest) es)) lhs"
  shows "\<exists>n t' ps1 ps2. ps = ps1 @ ps2
       \<and> parseBinaryOpRHS n f lhs (parserAt (joined ps @ rest) es)
           = Some (Some t', parserAt (joined ps2 @ rest) es)
       \<and> inorder t' = inorder lhs @ map item_of (joined ps1)
       \<and> grouped t' \<and> binds_at_least f t'
       \<and> currentPrecedence (parserAt (joined ps2 @ rest) es) < f"
  using wf lhs floor
proof (induction "length ps" arbitrary: ps f lhs rule: less_induct)
  case less
  let ?p = "parserAt (joined ps @ rest) es"
  show ?case
  proof (cases "currentPrecedence ?p < f")
    case True
    then have "parseBinaryOpRHS (Suc 0) f lhs ?p = Some (Some lhs, ?p)"
      by (simp add: parseBinaryOpRHS_Suc_stop currentPrecedence_def)
    with True less.prems show ?thesis
      by (intro exI [of _ "Suc 0"] exI [of _ lhs] exI [of _ "[]"] exI [of _ ps]) simp
  next
    case False
    have "ps \<noteq> []"
    proof
      assume "ps = []"
      with stop have "currentPrecedence ?p = - 1"
        by (simp add: currentPrecedence_def binaryOpPrecedence_simps)
      with False \<open>0 \<le> f\<close> show False by simp
    qed
    then obtain opTok t ps' where ps: "ps = (opTok, t) # ps'"
      by (cases ps) auto
    from less.prems(1) ps have opTok: "tokenTypeToBinaryOpcode (type opTok) \<noteq> NONE_binary"
      and t: "type t = INTEGER"
      and wf': "\<forall>(opTok, t) \<in> set ps'.
                 tokenTypeToBinaryOpcode (type opTok) \<noteq> NONE_binary \<and> type t = INTEGER"
      by auto
    define op where "op = tokenTypeToBinaryOpcode (type opTok)"
    define leaf where "leaf = IntegerExpr (columnStart t) (columnEnd t) (atoll (str t))"
    let ?p2 = "parserAt (joined ps' @ rest) es"
    have cur: "currentPrecedence ?p = binaryOpPrecedence op"
      by (simp add: ps currentPrecedence_def op_def)
    from False cur have ge: "f \<le> binaryOpPrecedence op" by simp
    have go: "\<not> binaryOpPrecedence (tokenTypeToBinaryOpcode (currentType ?p)) < f"
      using False by (simp add: currentPrecedence_def)
    have item_op: "item_of opTok = Operator (columnStart opTok) (columnEnd opTok) op"
      using opTok by (auto simp: item_of_def op_def)
    have item_t: "item_of t = Operand leaf"
      using t by (simp add: item_of_def leaf_def)
    show ?thesis
    proof (cases "binaryOpPrecedence op < currentPrecedence ?p2")
      case tighter: True
      have "\<exists>n t' ps1 ps2. ps' = ps1 @ ps2
          \<and> parseBinaryOpRHS n (binaryOpPrecedence op + 1) leaf ?p2
              = Some (Some t', parserAt (joined ps2 @ rest) es)
          \<and> inorder t' = inorder leaf @ map item_of (joined ps1)
          \<and> grouped t' \<and> binds_at_least (binaryOpPrecedence op + 1) t'
          \<and> currentPrecedence (parserAt (joined ps2 @ rest) es) < binaryOpPrecedence op + 1"
        using ge \<open>0 \<le> f\<close>
        by (intro less.hyps) (simp_all add: ps wf' leaf_def)
      then obtain n1 rhs' ps1' ps2' where split1: "ps' = ps1' @ ps2'"
        and run1: "parseBinaryOpRHS n1 (binaryOpPrecedence op + 1) leaf ?p2
              = Some (Some rhs', parserAt (joined ps2' @ rest) es)"
        and in1: "inorder rhs' = inorder leaf @ map item_of (joined ps1')"
        and gr1: "grouped rhs'" "binds_at_least (binaryOpPrecedence op + 1) rhs'"
        and cp1: "currentPrecedence (parserAt (joined ps2' @ rest) es) < binaryOpPrecedence op + 1"
        by blast
      define lhs' where
        "lhs' = BinaryOp (columnStart opTok) (columnEnd opTok) op lhs rhs'"
      have "\<exists>n t' ps1 ps2. ps2' = ps1 @ ps2
          \<and> parseBinaryOpRHS n f lhs' (parserAt (joined ps2' @ rest) es)
              = Some (Some t', parserAt (joined ps2 @ rest) es)
          \<and> inorder t' = inorder lhs' @ map item_of (joined ps1)
          \<and> grouped t' \<and> binds_at_least f t'
          \<and> currentPrecedence (parserAt (joined ps2 @ rest) es) < f"
        using ge \<open>0 \<le> f\<close> wf' gr1 cp1 less.prems(2,4) cur
        by (intro less.hyps) (auto simp: ps split1 lhs'_def)
      then obtain n2 t' ps1'' ps2'' where split2: "ps2' = ps1'' @ ps2''"
        and run2: "parseBinaryOpRHS n2 f lhs' (parserAt (joined ps2' @ rest) es)
              = Some (Some t', parserAt (joined ps2'' @ rest) es)"
        and in2: "inorder t' = inorder lhs' @ map item_of (joined ps1'')"
        and gr2: "grouped t'" "binds_at_least f t'"
        and cp2: "currentPrecedence (parserAt (joined ps2'' @ rest) es) < f"
        by blast
      define N where "N = Suc (Suc (max n1 n2))"
      have r1: "parseBinaryOpRHS N (binaryOpPrecedence op + 1) leaf ?p2
              = Some (Some rhs', parserAt (joined ps2' @ rest) es)"
        by (rule parseBinaryOpRHS_mono [OF run1]) (simp add: N_def)
      have r2: "parseBinaryOpRHS N f lhs' (parserAt (joined ps2' @ rest) es)
              = Some (Some t', parserAt (joined ps2'' @ rest) es)"
        by (rule parseBinaryOpRHS_mono [OF run2]) (simp add: N_def)
      have "parseBinaryOpRHS (Suc N) f lhs ?p = Some (Some t', parserAt (joined ps2'' @ rest) es)"
        using tighter r1 r2 ge t
        unfolding N_def ps op_def leaf_def lhs'_def
        by (simp add: parseBinaryOpRHS_operator_INTEGER)
      moreover have "ps = ((opTok, t) # ps1' @ ps1'') @ ps2''"
        by (simp add: ps split1 split2)
      moreover have "inorder t' = inorder lhs @ map item_of (joined ((opTok, t) # ps1' @ ps1''))"
        by (simp add: in2 lhs'_def in1 item_op item_t) (simp add: leaf_def)
      ultimately show ?thesis using gr2 cp2 by blast
    next
      case False
      define lhs' where
        "lhs' = BinaryOp (columnStart opTok) (columnEnd opTok) op lhs leaf"
      have "\<exists>n t' ps1 ps2. ps' = ps1 @ ps2
          \<and> parseBinaryOpRHS n f lhs' ?p2
              = Some (Some t', parserAt (joined ps2 @ rest) es)
          \<and> inorder t' = inorder lhs' @ map item_of (joined ps1)
          \<and> grouped t' \<and> binds_at_least f t'
          \<and> currentPrecedence (parserAt (joined ps2 @ rest) es) < f"
        using ge \<open>0 \<le> f\<close> wf' False less.prems(2,4) cur
        by (intro less.hyps) (auto simp: ps lhs'_def leaf_def)
      then obtain n2 t' ps1'' ps2'' where split2: "ps' = ps1'' @ ps2''"
        and run2: "parseBinaryOpRHS n2 f lhs' ?p2
              = Some (Some t', parserAt (joined ps2'' @ rest) es)"
        and in2: "inorder t' = inorder lhs' @ map item_of (joined ps1'')"
        and gr2: "grouped t'" "binds_at_least f t'"
        and cp2: "currentPrecedence (parserAt (joined ps2'' @ rest) es) < f"
        by blast
      define N where "N = Suc (Suc n2)"
      have r2: "parseBinaryOpRHS N f lhs' ?p2
              = Some (Some t', parserAt (joined ps2'' @ rest) es)"
        by (rule parseBinaryOpRHS_mono [OF run2]) (simp add: N_def)
      have "parseBinaryOpRHS (Suc N) f lhs ?p = Some (Some t', parserAt (joined ps2'' @ rest) es)"
        using False r2 ge t
        unfolding N_def ps op_def leaf_def lhs'_def
        by (simp add: parseBinaryOpRHS_operator_INTEGER)
      moreover have "ps = ((opTok, t) # ps1'') @ ps2''"
        by (simp add: ps split2)
      moreover have "inorder t' = inorder lhs @ map item_of (joined ((opTok, t) # ps1''))"
        by (simp add: in2 lhs'_def item_op item_t leaf_def)
      ultimately show ?thesis using gr2 cp2 by blast
    qed
  qed
qed

subsection \<open>A grouped tree is determined by its reading from left to right\<close>

lemma ops_ge_simps [simp]:
  "ops_ge q []"
  "ops_ge q (Operand x # xs) = ops_ge q xs"
  "ops_ge q (Operator s e op # xs) = (q \<le> binaryOpPrecedence op \<and> ops_ge q xs)"
  "ops_ge q (xs @ ys) = (ops_ge q xs \<and> ops_ge q ys)"
  by (auto simp: ops_ge_def)

lemma ops_ge_mono: "ops_ge q xs \<Longrightarrow> q' \<le> q \<Longrightarrow> ops_ge q' xs"
  by (fastforce simp: ops_ge_def)

lemma grouped_ops_ge: "grouped t \<Longrightarrow> binds_at_least q t \<Longrightarrow> ops_ge q (inorder t)"
proof (induction t arbitrary: q)
  case (BinaryOp s e op l r)
  then have "ops_ge (binaryOpPrecedence op) (inorder l)"
    and "ops_ge (binaryOpPrecedence op + 1) (inorder r)"
    by simp_all
  with BinaryOp.prems(2) show ?case
    by (auto intro: ops_ge_mono)
qed simp_all

lemma inorder_not_Nil [simp]: "inorder t \<noteq> []"
  by (cases t) auto

lemma root_position:
  assumes eq: "xs @ Operator s e a # ys = xs' @ Operator s' e' a' # ys'"
    and "ops_ge (binaryOpPrecedence a) xs" "ops_ge (binaryOpPrecedence a + 1) ys"
    and "ops_ge (binaryOpPrecedence a') xs'" "ops_ge (binaryOpPrecedence a' + 1) ys'"
  shows "xs = xs' \<and> ys = ys' \<and> s = s' \<and> e = e' \<and> a = a'"
proof -
  from eq consider
    (same) "xs = xs'" "Operator s e a # ys = Operator s' e' a' # ys'"
    | (left) us where "xs = xs' @ Operator s' e' a' # us" "ys' = us @ Operator s e a # ys"
    | (right) us where "xs' = xs @ Operator s e a # us" "ys = us @ Operator s' e' a' # ys'"
    by (auto simp: append_eq_append_conv2 append_eq_Cons_conv Cons_eq_append_conv)
  then show ?thesis
  proof cases
    case same
    then show ?thesis by simp
  next
    case left
    with assms(2,5) show ?thesis by simp
  next
    case right
    with assms(3,4) show ?thesis by simp
  qed
qed

lemma inorder_BinaryOp_length: "2 \<le> length (inorder (BinaryOp s e op l r))"
  using inorder_not_Nil [of l] by (cases "inorder l") simp_all

lemma inorder_singleton: "inorder t = [x] \<Longrightarrow> x = Operand t"
proof (cases t)
  case (BinaryOp s e op l r)
  assume "inorder t = [x]"
  then have "length (inorder t) = 1" by simp
  moreover have "2 \<le> length (inorder t)"
    unfolding BinaryOp by (rule inorder_BinaryOp_length)
  ultimately show ?thesis by simp
qed simp_all

lemma inorder_leaf:
  assumes "inorder t = inorder t'" and "\<And>s e op l r. t \<noteq> BinaryOp s e op l r"
  shows "t = t'"
proof -
  have "inorder t = [Operand t]"
  proof (cases t)
    case (BinaryOp s e op l r)
    with assms(2) show ?thesis by blast
  qed simp_all
  with assms(1) have "inorder t' = [Operand t]" by simp
  from inorder_singleton [OF this] show ?thesis by simp
qed

lemma inorder_BinaryOp_eq:
  assumes "inorder (BinaryOp s e op l r) = inorder t'"
  shows "\<exists>s' e' op' l' r'. t' = BinaryOp s' e' op' l' r'"
proof (rule ccontr)
  assume neg: "\<not> ?thesis"
  have "inorder t' = [Operand t']"
  proof (cases t')
    case (BinaryOp s' e' op' l' r')
    with neg show ?thesis by blast
  qed simp_all
  then have "length (inorder t') = 1" by simp
  with assms have "length (inorder (BinaryOp s e op l r)) = 1" by (simp only:)
  with inorder_BinaryOp_length [of s e op l r] show False by linarith
qed

lemma grouped_unique:
  "grouped t \<Longrightarrow> grouped t' \<Longrightarrow> inorder t = inorder t' \<Longrightarrow> t = t'"
proof (induction t arbitrary: t')
  case (BinaryOp s e op l r)
  from inorder_BinaryOp_eq [OF BinaryOp.prems(3)]
  obtain s' e' op' l' r' where t': "t' = BinaryOp s' e' op' l' r'" by blast
  from BinaryOp.prems(1) have g: "grouped l" "grouped r"
    "ops_ge (binaryOpPrecedence op) (inorder l)"
    "ops_ge (binaryOpPrecedence op + 1) (inorder r)"
    by (simp_all add: grouped_ops_ge)
  from BinaryOp.prems(2) t' have g': "grouped l'" "grouped r'"
    "ops_ge (binaryOpPrecedence op') (inorder l')"
    "ops_ge (binaryOpPrecedence op' + 1) (inorder r')"
    by (simp_all add: grouped_ops_ge)
  from BinaryOp.prems(3) t'
  have "inorder l @ Operator s e op # inorder r = inorder l' @ Operator s' e' op' # inorder r'"
    by simp
  from root_position [OF this g(3,4) g'(3,4)]
  have same: "inorder l = inorder l'" "inorder r = inorder r'" "s = s'" "e = e'" "op = op'"
    by simp_all
  have "l = l'" by (rule BinaryOp.IH(1) [OF g(1) g'(1) same(1)])
  moreover have "r = r'" by (rule BinaryOp.IH(2) [OF g(2) g'(2) same(2)])
  ultimately show ?case using same t' by simp
qed (rule inorder_leaf; simp)+

lemma parseExpression_literal_chain:
  assumes first: "type t0 = INTEGER"
    and wf: "\<forall>(opTok, t) \<in> set ps.
               tokenTypeToBinaryOpcode (type opTok) \<noteq> NONE_binary \<and> type t = INTEGER"
    and stop: "tokenTypeToBinaryOpcode (currentType (parserAt rest es)) = NONE_binary"
  shows "\<exists>n tree. parseExpression n (parserAt (t0 # joined ps @ rest) es)
             = Some (Some tree, parserAt rest es)
         \<and> inorder tree = map item_of (t0 # joined ps)
         \<and> grouped tree
         \<and> (\<forall>tree'. grouped tree' \<and> inorder tree' = map item_of (t0 # joined ps)
               \<longrightarrow> tree' = tree)"
proof -
  define leaf where "leaf = IntegerExpr (columnStart t0) (columnEnd t0) (atoll (str t0))"
  have "\<exists>n t' ps1 ps2. ps = ps1 @ ps2
       \<and> parseBinaryOpRHS n 0 leaf (parserAt (joined ps @ rest) es)
           = Some (Some t', parserAt (joined ps2 @ rest) es)
       \<and> inorder t' = inorder leaf @ map item_of (joined ps1)
       \<and> grouped t' \<and> binds_at_least 0 t'
       \<and> currentPrecedence (parserAt (joined ps2 @ rest) es) < 0"
    by (rule climb [OF wf stop]) (simp_all add: leaf_def)
  then obtain n tree ps1 ps2 where split: "ps = ps1 @ ps2"
    and run: "parseBinaryOpRHS n 0 leaf (parserAt (joined ps @ rest) es)
           = Some (Some tree, parserAt (joined ps2 @ rest) es)"
    and io: "inorder tree = inorder leaf @ map item_of (joined ps1)"
    and gr: "grouped tree"
    and cp: "currentPrecedence (parserAt (joined ps2 @ rest) es) < 0"
    by blast
  have "ps2 = []"
  proof (cases ps2)
    case (Cons a ps2')
    obtain opTok t where a: "a = (opTok, t)" by (cases a)
    from wf split Cons a have "tokenTypeToBinaryOpcode (type opTok) \<noteq> NONE_binary" by auto
    from binaryOpPrecedence_real [OF this] cp Cons a show ?thesis
      by (simp add: currentPrecedence_def)
  qed simp
  with split have ps1: "ps1 = ps" by simp
  define N where "N = Suc (Suc n)"
  have u: "parseUnaryOpExpr N (parserAt (t0 # joined ps @ rest) es)
             = Some (Some leaf, parserAt (joined ps @ rest) es)"
    unfolding N_def leaf_def by (rule parseUnaryOpExpr_INTEGER [OF first])
  have b: "parseBinaryOpRHS N 0 leaf (parserAt (joined ps @ rest) es)
             = Some (Some tree, parserAt rest es)"
    using parseBinaryOpRHS_mono [OF run, of N] \<open>ps2 = []\<close> by (simp add: N_def)
  have "parseExpression (Suc N) (parserAt (t0 # joined ps @ rest) es)
          = Some (Some tree, parserAt rest es)"
    by (simp add: parseExpression.simps(2) u b)
  moreover have io': "inorder tree = map item_of (t0 # joined ps)"
    using io first by (simp add: ps1 leaf_def item_of_def)
  moreover have "tree' = tree" if "grouped tree'" "inorder tree' = map item_of (t0 # joined ps)"
    for tree'
    using grouped_unique [OF that(1) gr] that(2) io' by simp
  ultimately show ?thesis using gr by blast
qed

subsection \<open>Further facts used by the claims\<close>

lemma climbing_floor_nonneg: "climbing_floor f \<Longrightarrow> 0 \<le> f"
  by (induction rule: climbing_floor.induct) auto

lemma parseExpression_deterministic:
  assumes "parseExpression n p = Some r" and "parseExpression m p = Some r'"
  shows "r = r'"
  using parseExpression_mono [OF assms(1), of "max n m"]
    parseExpression_mono [OF assms(2), of "max n m"] by simp

lemma parseCommand_deterministic:
  assumes "parseCommand n p = Some r" and "parseCommand m p = Some r'"
  shows "r = r'"
  using parseCommand_mono [OF assms(1), of "max n m"]
    parseCommand_mono [OF assms(2), of "max n m"] by simp

lemma remaining_consumeToken_scanner: "remaining (consumeToken p) \<le> length (scanner p)"
  by (simp add: remaining_def consumeToken_def getNextToken_def currentType_def endOfInput_def
      split: list.splits)

lemma parseCommand_total:
  "4 * length (scanner p) + 3 \<le> n \<Longrightarrow> parseCommand n p \<noteq> None"
proof -
  assume n: "4 * length (scanner p) + 3 \<le> n"
  have "remaining (consumeToken (consumeToken p)) \<le> length (scanner p)"
    using remaining_consumeToken_le [of "consumeToken p"] remaining_consumeToken_scanner [of p]
    by simp
  with n have "4 * remaining (consumeToken (consumeToken p)) + 3 \<le> n" by simp
  from parseCommand_loop_total [OF this, of "[]"] show ?thesis
    by (auto simp: parseCommand_def Let_def split: option.splits)
qed

lemma parseCommand_loop_EOFT:
  "parseCommand_loop n args p = Some (args', p') \<Longrightarrow> currentType p' = EOFT"
proof (induction n arbitrary: args p)
  case 0
  then show ?case by simp
next
  case (Suc n)
  from parseCommand_loop_Suc_cases [OF Suc.prems] Suc.IH show ?case by blast
qed

lemma parseCommand_EOFT:
  "parseCommand n p = Some (Some c, p') \<Longrightarrow> currentType p' = EOFT"
  by (auto simp: parseCommand_def Let_def parseCommand_loop_EOFT
      split: if_splits option.splits)

lemma example_2_plus_3_times_4:
  "parseExpression 6 (parserAt tokens_2_plus_3_times_4 []) =
     Some (Some (BinaryOp 2 2 ADD (IntegerExpr 0 0 2)
              (BinaryOp 6 6 MULTIPLY (IntegerExpr 4 4 3) (IntegerExpr 8 8 4))),
           parserAt [Tok EOFT [] 9 9] [])"
  by code_simp

lemma parseUnaryOpExpr_chain:
  assumes "\<forall>u \<in> set us. tokenTypeToUnaryOpcode (type u) \<noteq> NONE_unary"
  shows "parseUnaryOpExpr (length us + n) (parserAt (us @ rest) es) =
     (case parseUnaryOpExpr n (parserAt rest es) of
        None \<Rightarrow> None
      | Some (None, p') \<Rightarrow> Some (None, p')
      | Some (Some operand, p') \<Rightarrow> Some (Some (nest us operand), p'))"
  using assms
proof (induction us)
  case Nil
  show ?case by (simp add: nest_def split: option.splits)
next
  case (Cons u us)
  then have u: "tokenTypeToUnaryOpcode (currentType (parserAt ((u # us) @ rest) es)) \<noteq> NONE_unary"
    by simp
  from Cons have IH: "parseUnaryOpExpr (length us + n) (parserAt (us @ rest) es) =
     (case parseUnaryOpExpr n (parserAt rest es) of
        None \<Rightarrow> None
      | Some (None, p') \<Rightarrow> Some (None, p')
      | Some (Some operand, p') \<Rightarrow> Some (Some (nest us operand), p'))"
    by simp
  have "parseUnaryOpExpr (length (u # us) + n) (parserAt ((u # us) @ rest) es) =
     (case parseUnaryOpExpr (length us + n) (parserAt (us @ rest) es) of
        None \<Rightarrow> None
      | Some (None, p2) \<Rightarrow> Some (None, p2)
      | Some (Some operand, p2) \<Rightarrow>
          Some (Some (UnaryOp (columnStart u) (columnEnd u)
                  (tokenTypeToUnaryOpcode (type u)) operand), p2))"
    using parseUnaryOpExpr_Suc_operator [OF u, of "length us + n"]
    by (simp split: option.splits)
  then show ?case
    unfolding IH by (simp add: nest_def split: option.splits)
qed

lemma example_minus_paren_1_plus_2:
  "parseExpression 10 (parserAt tokens_minus_paren_1_plus_2 []) =
     Some (Some (UnaryOp 0 0 MINUS_unary
              (BinaryOp 4 4 ADD (IntegerExpr 2 2 1) (IntegerExpr 6 6 2))),
           parserAt [Tok EOFT [] 8 8] [])"
  by code_simp

lemma parseExpression_Some_errorContext:
  "parseExpression n p = Some (Some e, p') \<Longrightarrow> errorContext p' = errorContext p"
  by (drule parseExpression_ok) (simp add: ok_strict_def ok_weak_def reported_def)

lemma parseParenExpr_unmatched:
  assumes "parseExpression n (consumeToken p) = Some (Some expr, p2)"
    and "currentType p2 \<noteq> CLOSE_PAREN"
  shows "parseParenExpr (Suc n) p =
     Some (None, p2\<lparr>errorContext := errorContext p
             @ [(''unmatched parentheses'', columnStart (currentToken p))]\<rparr>)"
  using assms parseExpression_Some_errorContext [OF assms(1)]
  by (simp add: parseParenExpr.simps(2) Let_def error_def printMessage_def)

lemma parseParenExpr_matched:
  assumes "parseExpression n (consumeToken p) = Some (Some expr, p2)"
    and "currentType p2 = CLOSE_PAREN"
  shows "parseParenExpr (Suc n) p = Some (Some expr, consumeToken p2)
     \<and> errorContext (consumeToken p2) = errorContext p"
  using assms parseExpression_Some_errorContext [OF assms(1)]
  by (simp add: parseParenExpr.simps(2) Let_def)

lemma example_paren_1_plus_2_open:
  "parseParenExpr 7 (parserAt tokens_paren_1_plus_2_open []) =
     Some (None, parserAt [Tok EOFT [] 6 6] [(''unmatched parentheses'', 0)])"
  by code_simp

lemma parseCommand_loop_skip:
  assumes "currentType p \<noteq> EOFT" and "parseUnaryOpExpr n p = Some (None, p1)"
  shows "parseCommand_loop (Suc n) args p = parseCommand_loop n args (consumeToken p1)"
  using assms by (simp add: parseCommand_loop.simps(2))


lemma consumeToken_drops_one:
  "currentToken (consumeToken p) = (case scanner p of [] \<Rightarrow> endOfInput | t # ts \<Rightarrow> t)
   \<and> scanner (consumeToken p) = drop 1 (scanner p)"
  by (simp add: consumeToken_def getNextToken_def drop_Suc split: list.splits)

lemma parseUnaryOpExpr_None_errorContext:
  "parseUnaryOpExpr n p = Some (None, p1) \<Longrightarrow> \<exists>m. errorContext p1 = errorContext p @ [m]"
  by (drule parseUnaryOpExpr_ok)
     (simp add: ok_operand_def ok_strict_def ok_weak_def reported_def)

lemma parseCommand_loop_keeps:
  "parseCommand_loop n args p = Some (args', p') \<Longrightarrow> \<exists>more. args' = args @ more"
proof (induction n arbitrary: args p)
  case 0
  then show ?case by simp
next
  case (Suc n)
  from parseCommand_loop_Suc_cases [OF Suc.prems] consider
    (finished) "args' = args"
    | (push) arg p1 where "parseCommand_loop n (args @ [arg]) p1 = Some (args', p')"
    | (skip) p1 where "parseCommand_loop n args (consumeToken p1) = Some (args', p')"
    by blast
  then show ?case
  proof cases
    case finished
    then show ?thesis by simp
  next
    case push
    from Suc.IH [OF this] show ?thesis by auto
  next
    case skip
    from Suc.IH [OF this] show ?thesis .
  qed
qed

lemma example_cmd_1_at_2:
  "parseCommand 6 \<lparr>currentToken = c, scanner = tokens_cmd_1_at_2, errorContext = []\<rparr> =
     Some (Some (CommandAST ''cmd'' 0 2 [IntegerExpr 4 4 1, IntegerExpr 8 8 2]),
           parserAt [Tok EOFT [] 9 9] [(''invalid character in input'', 6)])"
  by code_simp

lemma example_at_2:
  "parseUnaryOpExpr 4 (parserAt [Tok UNKNOWN ''@'' 6 6, Tok INTEGER ''2'' 8 8, Tok EOFT [] 9 9] []) =
     Some (None, parserAt [Tok UNKNOWN ''@'' 6 6, Tok INTEGER ''2'' 8 8, Tok EOFT [] 9 9]
                   [(''invalid character in input'', 6)])"
  by code_simp


lemma example_cmd_1_plus_2:
  "parseCommand 6 \<lparr>currentToken = c, scanner = tokens_cmd_1_plus_2, errorContext = []\<rparr> =
     Some (Some (CommandAST ''cmd'' 0 2
              [IntegerExpr 4 4 1, UnaryOp 6 6 PLUS_unary (IntegerExpr 8 8 2)]),
           parserAt [Tok EOFT [] 9 9] [])"
  by code_simp

lemma example_1_minus_2_minus_3:
  "parseExpression 6 (parserAt tokens_1_minus_2_minus_3 []) =
     Some (Some (BinaryOp 6 6 SUBTRACT
              (BinaryOp 2 2 SUBTRACT (IntegerExpr 0 0 1) (IntegerExpr 4 4 2))
              (IntegerExpr 8 8 3)),
           parserAt [Tok EOFT [] 9 9] [])"
  by code_simp

text \<open>The value of an integer literal is within the range of \<^verbatim>\<open>long long\<close>.\<close>

lemma atoll_long_long: "LLONG_MIN \<le> atoll s \<and> atoll s \<le> LLONG_MAX"
  by (simp add: atoll_def saturate_def LLONG_MIN_def LLONG_MAX_def)

lemma atoll_saturates:
  "atoll ''9223372036854775808'' = LLONG_MAX"
  "atoll ''-9223372036854775809'' = LLONG_MIN"
  "atoll ''9223372036854775807'' = 9223372036854775807"
  by (simp_all add: atoll_def isspace_def isdigit_def saturate_def LLONG_MAX_def LLONG_MIN_def)




lemma currentType_parserAt_Nil [simp]: "currentType (parserAt [] es) = EOFT"
  by (simp add: parserAt_Nil currentType_def endOfInput_def)

lemma currentType_not_EOFT:
  assumes "currentType (parserAt ts es) \<noteq> EOFT"
  obtains t ts' where "ts = t # ts'"
  using assms by (cases ts) auto



lemma token_spans_append [simp]: "token_spans (ts @ us) = token_spans ts @ token_spans us"
  by (simp add: token_spans_def)

lemma token_spans_Nil [simp]: "token_spans [] = []"
  by (simp add: token_spans_def)

lemma token_spans_Cons:
  "token_spans (t # ts) =
     (if type t \<noteq> OPEN_PAREN \<and> type t \<noteq> CLOSE_PAREN
      then (columnStart t, columnEnd t) # token_spans ts else token_spans ts)"
  by (simp add: token_spans_def)

lemma unary_not_paren:
  "tokenTypeToUnaryOpcode ty \<noteq> NONE_unary \<Longrightarrow> ty \<noteq> OPEN_PAREN \<and> ty \<noteq> CLOSE_PAREN"
  by (auto simp: tokenTypeToUnaryOpcode_simps)

lemma binary_not_paren:
  "tokenTypeToBinaryOpcode ty \<noteq> NONE_binary \<Longrightarrow> ty \<noteq> OPEN_PAREN \<and> ty \<noteq> CLOSE_PAREN"
  by (auto simp: tokenTypeToBinaryOpcode_def findWithDefault_def binaryTokenMap_def)

lemma built_from_node_spans: "built_from tree ts \<Longrightarrow> node_spans tree = token_spans ts"
proof (induction rule: built_from.induct)
  case (of_unary u operand ts)
  with unary_not_paren [OF of_unary.hyps(1)] show ?case by (simp add: token_spans_Cons)
next
  case (of_binary lhs ts1 b rhs ts2)
  with binary_not_paren [OF of_binary.hyps(2)] show ?case by (simp add: token_spans_Cons)
qed (simp_all add: token_spans_Cons)


lemma arguments_from_append:
  "arguments_from args ts \<Longrightarrow> arguments_from others us \<Longrightarrow> arguments_from (args @ others) (ts @ us)"
proof (induction rule: arguments_from.induct)
  case no_more
  then show ?case by simp
next
  case (argument arg ts args rest)
  from arguments_from.argument [OF argument.hyps(1) argument.IH [OF argument.prems]]
  show ?case by simp
next
  case (skipped args rest t)
  from arguments_from.skipped [OF skipped.IH [OF skipped.prems]] show ?case by simp
qed







lemma wrong_span_not_built:
  "\<not> built_from
       (BinaryOp 2 2 ADD (BinaryOp 2 2 ADD (IntegerExpr 0 0 1) (IntegerExpr 4 4 2))
          (IntegerExpr 8 8 3))
       tokens_1_plus_2_plus_3"
proof
  assume "built_from
       (BinaryOp 2 2 ADD (BinaryOp 2 2 ADD (IntegerExpr 0 0 1) (IntegerExpr 4 4 2))
          (IntegerExpr 8 8 3))
       tokens_1_plus_2_plus_3"
  from built_from_node_spans [OF this] show False
    by (simp add: tokens_1_plus_2_plus_3_def token_spans_def)
qed







section \<open>The claims\<close>

subsection \<open>The precedence table\<close>

text \<open>
  C3. The precedence table orders the binary opcodes as stated: the multiplicative
  operators have 700, the additive ones 600, the shifts 500, the relational ones 400,
  the equality ones 300, bitwise AND 266, bitwise XOR 233, bitwise OR 200, logical
  AND 150 and logical OR 100. Any two opcodes are comparable by precedence.
  \<open>NONE\<close> has \<open>-1\<close>, strictly below every real operator, and it is below every floor
  that the climbing loop is ever run with (\<open>0\<close> at the entry, the precedence of a
  consumed operator plus one in a recursive call), so the test
  \<^verbatim>\<open>tokenPrecedence < exprPrecedence\<close> always stops the loop at a token that is not a
  binary operator.
\<close>

theorem binaryPrecedences_ordering:
  "(binaryOpPrecedence MULTIPLY = 700 \<and> binaryOpPrecedence DIVIDE = 700
      \<and> binaryOpPrecedence MOD = 700)
 \<and> (binaryOpPrecedence ADD = 600 \<and> binaryOpPrecedence SUBTRACT = 600)
 \<and> (binaryOpPrecedence LEFT_SHIFT = 500 \<and> binaryOpPrecedence RIGHT_SHIFT = 500)
 \<and> (binaryOpPrecedence GREATER_THAN = 400 \<and> binaryOpPrecedence LESS_THAN = 400
      \<and> binaryOpPrecedence GREATER_THAN_OR_EQUALS = 400
      \<and> binaryOpPrecedence LESS_THAN_OR_EQUALS = 400)
 \<and> (binaryOpPrecedence EQUALS = 300 \<and> binaryOpPrecedence NOT_EQUALS = 300)
 \<and> binaryOpPrecedence BIT_AND = 266
 \<and> binaryOpPrecedence BIT_XOR = 233
 \<and> binaryOpPrecedence BIT_OR = 200
 \<and> binaryOpPrecedence LOGIC_AND = 150
 \<and> binaryOpPrecedence LOGIC_OR = 100
 \<and> binaryOpPrecedence NONE_binary = - 1
 \<and> (\<forall>a b. binaryOpPrecedence a \<le> binaryOpPrecedence b
        \<or> binaryOpPrecedence b \<le> binaryOpPrecedence a)
 \<and> (\<forall>op. op \<noteq> NONE_binary \<longrightarrow> binaryOpPrecedence NONE_binary < binaryOpPrecedence op)
 \<and> (\<forall>exprPrecedence. climbing_floor exprPrecedence \<longrightarrow>
        binaryOpPrecedence NONE_binary < exprPrecedence)"
proof -
  have below: "\<forall>op. op \<noteq> NONE_binary \<longrightarrow> binaryOpPrecedence NONE_binary < binaryOpPrecedence op"
    using binaryOpPrecedence_real by (fastforce simp: binaryOpPrecedence_simps)
  have floors: "\<forall>f. climbing_floor f \<longrightarrow> binaryOpPrecedence NONE_binary < f"
    using climbing_floor_nonneg by (fastforce simp: binaryOpPrecedence_simps)
  have total: "\<forall>a b. binaryOpPrecedence a \<le> binaryOpPrecedence b
      \<or> binaryOpPrecedence b \<le> binaryOpPrecedence a"
    by (simp add: linear)
  show ?thesis
    using below floors total by (simp add: binaryOpPrecedence_simps)
qed

theorem binaryPrecedences_ordering_witness:
  "binaryOpPrecedence NONE_binary < binaryOpPrecedence ADD
   \<and> climbing_floor 601 \<and> binaryOpPrecedence NONE_binary < 601"
proof -
  have "climbing_floor (binaryOpPrecedence ADD + 1)"
    by (rule climbing_floor.deeper [OF climbing_floor.entry, where nextOp = MULTIPLY])
       (simp_all add: binaryOpPrecedence_simps)
  then have floor: "climbing_floor 601" by (simp add: binaryOpPrecedence_simps)
  have "ADD \<noteq> NONE_binary" by simp
  with binaryPrecedences_ordering floor show ?thesis by blast
qed

text \<open>
  C10. The precedence table has an entry for each of the nineteen opcodes (the
  eighteen operators and \<open>NONE\<close>), each key once. So \<^verbatim>\<open>operator[]\<close> finds an entry
  for every opcode, returns the value of that entry and leaves the table as it was:
  it never inserts a zero. The value found for \<open>NONE\<close> is \<open>-1\<close>.
\<close>

theorem binaryPrecedences_complete:
  "(\<forall>op. op \<in> fst ` set binaryPrecedences)
   \<and> length binaryPrecedences = 19 \<and> distinct (map fst binaryPrecedences)
   \<and> (\<forall>op. \<exists>v. map_of binaryPrecedences op = Some v
          \<and> subscript binaryPrecedences op = (v, binaryPrecedences)
          \<and> binaryOpPrecedence op = v)
   \<and> map_of binaryPrecedences NONE_binary = Some (- 1)
   \<and> binaryOpPrecedence NONE_binary = - 1"
proof -
  have keys: "op \<in> fst ` set binaryPrecedences" for op
    by (cases op; simp add: binaryPrecedences_def)
  have found: "\<exists>v. map_of binaryPrecedences op = Some v
      \<and> subscript binaryPrecedences op = (v, binaryPrecedences)
      \<and> binaryOpPrecedence op = v" for op
    by (cases op; simp add: binaryPrecedences_def binaryOpPrecedence_def subscript_def)
  have shape: "length binaryPrecedences = 19 \<and> distinct (map fst binaryPrecedences)"
    by (simp add: binaryPrecedences_def)
  have none: "map_of binaryPrecedences NONE_binary = Some (- 1)"
    by (simp add: binaryPrecedences_def)
  show ?thesis
    using keys found shape none by (simp add: binaryOpPrecedence_simps)
qed

subsection \<open>Errors of the primary expression parser\<close>

text \<open>
  C6. In \<^verbatim>\<open>parsePrimaryExpr\<close>, a closing parenthesis reports
  ``unmatched parentheses'', a token of the unknown kind reports
  ``invalid character in input'', and a token of any kind other than the five
  literal kinds and the two parentheses reports ``expected primary expression''. Each
  of the three reports exactly that one message at the start column of the current
  token, returns the null result, and leaves the current token and the scanner
  untouched: nothing is consumed. Each is an ordinary return (the result is \<open>Some\<close>
  for every bound of at least one).
\<close>

theorem parsePrimaryExpr_errors:
  "(currentType p = CLOSE_PAREN \<longrightarrow>
      parsePrimaryExpr (Suc n) p =
        Some (None, p\<lparr>errorContext := errorContext p
                @ [(''unmatched parentheses'', columnStart (currentToken p))]\<rparr>))
 \<and> (currentType p = UNKNOWN \<longrightarrow>
      parsePrimaryExpr (Suc n) p =
        Some (None, p\<lparr>errorContext := errorContext p
                @ [(''invalid character in input'', columnStart (currentToken p))]\<rparr>))
 \<and> (currentType p \<notin> {IDENTIFIER, INTEGER, FLOAT, STRING, VARIABLE,
                        OPEN_PAREN, CLOSE_PAREN, UNKNOWN} \<longrightarrow>
      parsePrimaryExpr (Suc n) p =
        Some (None, p\<lparr>errorContext := errorContext p
                @ [(''expected primary expression'', columnStart (currentToken p))]\<rparr>))"
  by (cases "currentType p")
     (simp_all add: parsePrimaryExpr.simps(2) error_def printMessage_def)

theorem parsePrimaryExpr_errors_witness:
  "parsePrimaryExpr (Suc 0) (parserAt [Tok CLOSE_PAREN '')'' 3 3, Tok EOFT [] 4 4] []) =
     Some (None, parserAt [Tok CLOSE_PAREN '')'' 3 3, Tok EOFT [] 4 4]
                   [(''unmatched parentheses'', 3)])
 \<and> parsePrimaryExpr (Suc 0) (parserAt [Tok UNKNOWN ''@'' 6 6, Tok EOFT [] 7 7] []) =
     Some (None, parserAt [Tok UNKNOWN ''@'' 6 6, Tok EOFT [] 7 7]
                   [(''invalid character in input'', 6)])
 \<and> parsePrimaryExpr (Suc 0) (parserAt [Tok STAR ''*'' 2 2, Tok EOFT [] 3 3] []) =
     Some (None, parserAt [Tok STAR ''*'' 2 2, Tok EOFT [] 3 3]
                   [(''expected primary expression'', 2)])"
  using parsePrimaryExpr_errors [of "parserAt [Tok CLOSE_PAREN '')'' 3 3, Tok EOFT [] 4 4] []" 0]
    parsePrimaryExpr_errors [of "parserAt [Tok UNKNOWN ''@'' 6 6, Tok EOFT [] 7 7] []" 0]
    parsePrimaryExpr_errors [of "parserAt [Tok STAR ''*'' 2 2, Tok EOFT [] 3 3] []" 0]
  by (simp add: parserAt_Cons currentType_def)

subsection \<open>Precedence and associativity\<close>

text \<open>
  C1. Take an integer literal \<open>t0\<close> followed by any number of pairs of a binary
  operator token and an integer literal (\<open>joined ps\<close>), and after them a token that
  is not a binary operator, or nothing. Then \<^verbatim>\<open>parseExpression\<close> returns a tree and
  stops at that token. Read from left to right, the tree has exactly the literals
  and operators of the input, each node with the columns of its token and each
  literal with the 64-bit value that \<^verbatim>\<open>atoll\<close> gives for its text (\<open>inorder\<close>). It is \<open>grouped\<close>: at every binary node the left operand, when it is a
  binary node, has an operator of the same or a higher precedence, and the right
  operand, when it is a binary node, has an operator of a strictly higher precedence.
  That is, an operator of higher precedence is grouped first, and operators of equal
  precedence are grouped from the left. There is exactly one such tree for the input.
  The tokens of \<^verbatim>\<open>2 + 3 * 4\<close> parse to \<open>ADD (Integer 2) (MULTIPLY (Integer 3) (Integer 4))\<close>
  and those of \<^verbatim>\<open>1 - 2 - 3\<close> to \<open>SUBTRACT (SUBTRACT (Integer 1) (Integer 2)) (Integer 3)\<close>.
\<close>

theorem parseExpression_precedence:
  "(\<forall>t0 ps rest es.
      type t0 = INTEGER
      \<and> (\<forall>(opTok, t) \<in> set ps.
            tokenTypeToBinaryOpcode (type opTok) \<noteq> NONE_binary \<and> type t = INTEGER)
      \<and> tokenTypeToBinaryOpcode (currentType (parserAt rest es)) = NONE_binary \<longrightarrow>
      (\<exists>n tree. parseExpression n (parserAt (t0 # joined ps @ rest) es)
                   = Some (Some tree, parserAt rest es)
         \<and> inorder tree = map item_of (t0 # joined ps)
         \<and> grouped tree
         \<and> (\<forall>tree'. grouped tree' \<and> inorder tree' = map item_of (t0 # joined ps)
               \<longrightarrow> tree' = tree)))
 \<and> (\<exists>n. parseExpression n (parserAt tokens_2_plus_3_times_4 []) =
       Some (Some (BinaryOp 2 2 ADD (IntegerExpr 0 0 2)
                (BinaryOp 6 6 MULTIPLY (IntegerExpr 4 4 3) (IntegerExpr 8 8 4))),
             parserAt [Tok EOFT [] 9 9] []))
 \<and> (\<exists>n. parseExpression n (parserAt tokens_1_minus_2_minus_3 []) =
       Some (Some (BinaryOp 6 6 SUBTRACT
                (BinaryOp 2 2 SUBTRACT (IntegerExpr 0 0 1) (IntegerExpr 4 4 2))
                (IntegerExpr 8 8 3)),
             parserAt [Tok EOFT [] 9 9] []))"
proof -
  have a: "\<forall>t0 ps rest es.
      type t0 = INTEGER
      \<and> (\<forall>(opTok, t) \<in> set ps.
            tokenTypeToBinaryOpcode (type opTok) \<noteq> NONE_binary \<and> type t = INTEGER)
      \<and> tokenTypeToBinaryOpcode (currentType (parserAt rest es)) = NONE_binary \<longrightarrow>
      (\<exists>n tree. parseExpression n (parserAt (t0 # joined ps @ rest) es)
                   = Some (Some tree, parserAt rest es)
         \<and> inorder tree = map item_of (t0 # joined ps)
         \<and> grouped tree
         \<and> (\<forall>tree'. grouped tree' \<and> inorder tree' = map item_of (t0 # joined ps)
               \<longrightarrow> tree' = tree))"
    using parseExpression_literal_chain by blast
  have b: "\<exists>n. parseExpression n (parserAt tokens_2_plus_3_times_4 []) =
       Some (Some (BinaryOp 2 2 ADD (IntegerExpr 0 0 2)
                (BinaryOp 6 6 MULTIPLY (IntegerExpr 4 4 3) (IntegerExpr 8 8 4))),
             parserAt [Tok EOFT [] 9 9] [])"
    using example_2_plus_3_times_4 by blast
  have c: "\<exists>n. parseExpression n (parserAt tokens_1_minus_2_minus_3 []) =
       Some (Some (BinaryOp 6 6 SUBTRACT
                (BinaryOp 2 2 SUBTRACT (IntegerExpr 0 0 1) (IntegerExpr 4 4 2))
                (IntegerExpr 8 8 3)),
             parserAt [Tok EOFT [] 9 9] [])"
    using example_1_minus_2_minus_3 by blast
  show ?thesis by (intro conjI a b c)
qed

text \<open>
  The general statement alone decides an input: for \<^verbatim>\<open>8 - 2 * 3 - 1\<close> the tree below
  is grouped and reads as the input, so it is the one the parser returns.
\<close>

theorem parseExpression_precedence_witness:
  "\<exists>n. parseExpression n
     (parserAt [Tok INTEGER ''8'' 0 0, Tok MINUS ''-'' 2 2, Tok INTEGER ''2'' 4 4,
                Tok STAR ''*'' 6 6, Tok INTEGER ''3'' 8 8, Tok MINUS ''-'' 10 10,
                Tok INTEGER ''1'' 12 12, Tok EOFT [] 13 13] []) =
     Some (Some (BinaryOp 10 10 SUBTRACT
              (BinaryOp 2 2 SUBTRACT (IntegerExpr 0 0 8)
                 (BinaryOp 6 6 MULTIPLY (IntegerExpr 4 4 2) (IntegerExpr 8 8 3)))
              (IntegerExpr 12 12 1)),
           parserAt [Tok EOFT [] 13 13] [])"
proof -
  let ?t0 = "Tok INTEGER ''8'' 0 0"
  let ?ps = "[(Tok MINUS ''-'' 2 2, Tok INTEGER ''2'' 4 4),
              (Tok STAR ''*'' 6 6, Tok INTEGER ''3'' 8 8),
              (Tok MINUS ''-'' 10 10, Tok INTEGER ''1'' 12 12)]"
  let ?rest = "[Tok EOFT [] 13 13]"
  let ?tree = "BinaryOp 10 10 SUBTRACT
              (BinaryOp 2 2 SUBTRACT (IntegerExpr 0 0 8)
                 (BinaryOp 6 6 MULTIPLY (IntegerExpr 4 4 2) (IntegerExpr 8 8 3)))
              (IntegerExpr 12 12 1)"
  have h1: "type ?t0 = INTEGER" by simp
  have h2: "\<forall>(opTok, t) \<in> set ?ps.
      tokenTypeToBinaryOpcode (type opTok) \<noteq> NONE_binary \<and> type t = INTEGER"
    by (simp add: tokenTypeToBinaryOpcode_def findWithDefault_def binaryTokenMap_def)
  have h3: "tokenTypeToBinaryOpcode (currentType (parserAt ?rest [])) = NONE_binary"
    by (simp add: tokenTypeToBinaryOpcode_def findWithDefault_def binaryTokenMap_def)
  from parseExpression_precedence h1 h2 h3
  have "\<exists>n tree. parseExpression n (parserAt (?t0 # joined ?ps @ ?rest) [])
                   = Some (Some tree, parserAt ?rest [])
         \<and> inorder tree = map item_of (?t0 # joined ?ps)
         \<and> grouped tree
         \<and> (\<forall>tree'. grouped tree' \<and> inorder tree' = map item_of (?t0 # joined ?ps)
               \<longrightarrow> tree' = tree)"
    by blast
  then obtain n tree where
    run: "parseExpression n (parserAt (?t0 # joined ?ps @ ?rest) []) = Some (Some tree, parserAt ?rest [])"
    and unique: "\<forall>tree'. grouped tree' \<and> inorder tree' = map item_of (?t0 # joined ?ps)
               \<longrightarrow> tree' = tree"
    by blast
  have "grouped ?tree" by (simp add: binaryOpPrecedence_simps)
  moreover have "inorder ?tree = map item_of (?t0 # joined ?ps)"
    by (simp add: item_of_def tokenTypeToBinaryOpcode_def findWithDefault_def binaryTokenMap_def
        atoll_def isspace_def isdigit_def saturate_def LLONG_MAX_def LLONG_MIN_def)
  ultimately have "?tree = tree" using unique by blast
  with run show ?thesis by (intro exI [of _ n]) simp
qed

subsection \<open>Unary operators\<close>

text \<open>
  C4. At a token that maps to a unary opcode other than \<open>NONE\<close>, \<^verbatim>\<open>parseUnaryOpExpr\<close>
  consumes the token and parses the operand by calling itself. So a run of unary
  operator tokens \<open>us\<close> in front of anything parses to the operators nested to the
  right around the operand that \<^verbatim>\<open>parseUnaryOpExpr\<close> returns after them, the first
  operator outermost, each node with its own token's columns; when that operand parse
  fails, so does the whole. With the parenthesised grouping, the tokens of
  \<^verbatim>\<open>-(1 + 2)\<close> parse to \<open>UnaryOp MINUS (ADD (Integer 1) (Integer 2))\<close>.
\<close>

theorem unary_operators_nest_right:
  "(\<forall>us rest es n. (\<forall>u \<in> set us. tokenTypeToUnaryOpcode (type u) \<noteq> NONE_unary) \<longrightarrow>
      parseUnaryOpExpr (length us + n) (parserAt (us @ rest) es) =
        (case parseUnaryOpExpr n (parserAt rest es) of
           None \<Rightarrow> None
         | Some (None, p') \<Rightarrow> Some (None, p')
         | Some (Some operand, p') \<Rightarrow> Some (Some (nest us operand), p')))
 \<and> (\<forall>u operand.
      nest [u] operand
        = UnaryOp (columnStart u) (columnEnd u) (tokenTypeToUnaryOpcode (type u)) operand)
 \<and> (\<forall>u us operand. nest (u # us) operand = nest [u] (nest us operand))
 \<and> (\<exists>n. parseExpression n (parserAt tokens_minus_paren_1_plus_2 []) =
       Some (Some (UnaryOp 0 0 MINUS_unary
                (BinaryOp 4 4 ADD (IntegerExpr 2 2 1) (IntegerExpr 6 6 2))),
             parserAt [Tok EOFT [] 8 8] []))"
proof -
  have chain: "\<forall>us rest es n. (\<forall>u \<in> set us. tokenTypeToUnaryOpcode (type u) \<noteq> NONE_unary) \<longrightarrow>
      parseUnaryOpExpr (length us + n) (parserAt (us @ rest) es) =
        (case parseUnaryOpExpr n (parserAt rest es) of
           None \<Rightarrow> None
         | Some (None, p') \<Rightarrow> Some (None, p')
         | Some (Some operand, p') \<Rightarrow> Some (Some (nest us operand), p'))"
    using parseUnaryOpExpr_chain by blast
  have one: "\<forall>u operand.
      nest [u] operand
        = UnaryOp (columnStart u) (columnEnd u) (tokenTypeToUnaryOpcode (type u)) operand"
    by (simp add: nest_def)
  have more: "\<forall>u us operand. nest (u # us) operand = nest [u] (nest us operand)"
    by (simp add: nest_def)
  have ex: "\<exists>n. parseExpression n (parserAt tokens_minus_paren_1_plus_2 []) =
       Some (Some (UnaryOp 0 0 MINUS_unary
                (BinaryOp 4 4 ADD (IntegerExpr 2 2 1) (IntegerExpr 6 6 2))),
             parserAt [Tok EOFT [] 8 8] [])"
    using example_minus_paren_1_plus_2 by blast
  show ?thesis by (intro conjI chain one more ex)
qed

theorem unary_operators_nest_right_witness:
  "parseUnaryOpExpr 4
     (parserAt [Tok MINUS ''-'' 0 0, Tok EXCLAMATION ''!'' 1 1, Tok INTEGER ''5'' 2 2,
                Tok EOFT [] 3 3] []) =
     Some (Some (UnaryOp 0 0 MINUS_unary (UnaryOp 1 1 LOGIC_NEGATE (IntegerExpr 2 2 5))),
           parserAt [Tok EOFT [] 3 3] [])"
proof -
  let ?us = "[Tok MINUS ''-'' 0 0, Tok EXCLAMATION ''!'' 1 1]"
  let ?rest = "[Tok INTEGER ''5'' 2 2, Tok EOFT [] 3 3]"
  have us: "\<forall>u \<in> set ?us. tokenTypeToUnaryOpcode (type u) \<noteq> NONE_unary"
    by (simp add: tokenTypeToUnaryOpcode_simps)
  have operand: "parseUnaryOpExpr (Suc (Suc 0)) (parserAt ?rest []) =
      Some (Some (IntegerExpr 2 2 5), parserAt [Tok EOFT [] 3 3] [])"
    by code_simp
  from unary_operators_nest_right us
  have "parseUnaryOpExpr (length ?us + 2) (parserAt (?us @ ?rest) []) =
        (case parseUnaryOpExpr 2 (parserAt ?rest []) of
           None \<Rightarrow> None
         | Some (None, p') \<Rightarrow> Some (None, p')
         | Some (Some operand, p') \<Rightarrow> Some (Some (nest ?us operand), p'))"
    by blast
  then show ?thesis
    by (simp add: operand nest_def tokenTypeToUnaryOpcode_simps eval_nat_numeral)
qed

subsection \<open>Parentheses\<close>

text \<open>
  C5. \<^verbatim>\<open>parseParenExpr\<close> consumes the current token (the opening parenthesis) and
  parses an expression. When that parse succeeds and the token after it is not a
  closing parenthesis, the result is null and the diagnostics are those from before
  the call followed by exactly one, ``unmatched parentheses'' at the start column of
  the opening parenthesis (the token that was current at the call, not the token where
  the parse stopped); nothing more is consumed. When the token after it is a closing
  parenthesis, that token is consumed, the result is the inner expression itself and
  no diagnostic is added. On the tokens of \<^verbatim>\<open>(1 + 2\<close> and end of input, the result is
  null with the single diagnostic at column 0, the parser standing at the
  end-of-input token at column 6.
\<close>

theorem parseParenExpr_closing:
  "(\<forall>n p expr p2. parseExpression n (consumeToken p) = Some (Some expr, p2)
        \<and> currentType p2 \<noteq> CLOSE_PAREN \<longrightarrow>
      parseParenExpr (Suc n) p =
        Some (None, p2\<lparr>errorContext := errorContext p
                @ [(''unmatched parentheses'', columnStart (currentToken p))]\<rparr>))
 \<and> (\<forall>n p expr p2. parseExpression n (consumeToken p) = Some (Some expr, p2)
        \<and> currentType p2 = CLOSE_PAREN \<longrightarrow>
      parseParenExpr (Suc n) p = Some (Some expr, consumeToken p2)
        \<and> errorContext (consumeToken p2) = errorContext p)
 \<and> (\<exists>n. parseParenExpr n (parserAt tokens_paren_1_plus_2_open []) =
       Some (None, parserAt [Tok EOFT [] 6 6] [(''unmatched parentheses'', 0)]))"
proof -
  have a: "\<forall>n p expr p2. parseExpression n (consumeToken p) = Some (Some expr, p2)
        \<and> currentType p2 \<noteq> CLOSE_PAREN \<longrightarrow>
      parseParenExpr (Suc n) p =
        Some (None, p2\<lparr>errorContext := errorContext p
                @ [(''unmatched parentheses'', columnStart (currentToken p))]\<rparr>)"
    using parseParenExpr_unmatched by blast
  have b: "\<forall>n p expr p2. parseExpression n (consumeToken p) = Some (Some expr, p2)
        \<and> currentType p2 = CLOSE_PAREN \<longrightarrow>
      parseParenExpr (Suc n) p = Some (Some expr, consumeToken p2)
        \<and> errorContext (consumeToken p2) = errorContext p"
    using parseParenExpr_matched by blast
  have c: "\<exists>n. parseParenExpr n (parserAt tokens_paren_1_plus_2_open []) =
       Some (None, parserAt [Tok EOFT [] 6 6] [(''unmatched parentheses'', 0)])"
    using example_paren_1_plus_2_open by blast
  show ?thesis by (intro conjI a b c)
qed

theorem parseParenExpr_closing_witness:
  "parseParenExpr 7 (parserAt tokens_paren_1_plus_2_open [(''earlier'', 9)]) =
     Some (None, parserAt [Tok EOFT [] 6 6]
                   [(''earlier'', 9), (''unmatched parentheses'', 0)])
 \<and> parseParenExpr 7
      (parserAt [Tok OPEN_PAREN ''('' 0 0, Tok INTEGER ''1'' 1 1, Tok CLOSE_PAREN '')'' 2 2,
                 Tok EOFT [] 3 3] [(''earlier'', 9)]) =
     Some (Some (IntegerExpr 1 1 1), parserAt [Tok EOFT [] 3 3] [(''earlier'', 9)])"
proof -
  let ?p = "parserAt tokens_paren_1_plus_2_open [(''earlier'', 9)]"
  let ?q = "parserAt [Tok OPEN_PAREN ''('' 0 0, Tok INTEGER ''1'' 1 1,
              Tok CLOSE_PAREN '')'' 2 2, Tok EOFT [] 3 3] [(''earlier'', 9)]"
  have inner_p: "parseExpression 6 (consumeToken ?p) =
      Some (Some (BinaryOp 3 3 ADD (IntegerExpr 1 1 1) (IntegerExpr 5 5 2)),
            parserAt [Tok EOFT [] 6 6] [(''earlier'', 9)])"
    by code_simp
  have inner_q: "parseExpression 6 (consumeToken ?q) =
      Some (Some (IntegerExpr 1 1 1),
            parserAt [Tok CLOSE_PAREN '')'' 2 2, Tok EOFT [] 3 3] [(''earlier'', 9)])"
    by code_simp
  have open_p: "currentType (parserAt [Tok EOFT [] 6 6] [(''earlier'', 9)]) \<noteq> CLOSE_PAREN"
    by simp
  have close_q: "currentType (parserAt [Tok CLOSE_PAREN '')'' 2 2, Tok EOFT [] 3 3]
      [(''earlier'', 9)]) = CLOSE_PAREN"
    by simp
  from parseParenExpr_closing inner_p open_p
  have "parseParenExpr (Suc 6) ?p =
      Some (None, (parserAt [Tok EOFT [] 6 6] [(''earlier'', 9)])
        \<lparr>errorContext := errorContext ?p
            @ [(''unmatched parentheses'', columnStart (currentToken ?p))]\<rparr>)"
    by blast
  moreover from parseParenExpr_closing inner_q close_q
  have "parseParenExpr (Suc 6) ?q =
      Some (Some (IntegerExpr 1 1 1),
        consumeToken (parserAt [Tok CLOSE_PAREN '')'' 2 2, Tok EOFT [] 3 3] [(''earlier'', 9)]))"
    by blast
  ultimately show ?thesis
    by (simp add: tokens_paren_1_plus_2_open_def parserAt_Cons eval_nat_numeral
        consumeToken_def getNextToken_def)
qed

subsection \<open>Source spans\<close>




subsection \<open>The argument loop of the command parser\<close>

text \<open>
  C2. On the tokens of \<^verbatim>\<open>cmd 1 @ 2\<close>, where \<^verbatim>\<open>@\<close> has the unknown kind, \<^verbatim>\<open>parseCommand\<close>
  returns the command \<^verbatim>\<open>cmd\<close> with exactly the arguments \<open>Integer 1\<close> and \<open>Integer 2\<close>
  and reports exactly one diagnostic (``invalid character in input'' at the column
  of \<^verbatim>\<open>@\<close>); the operand parse at \<^verbatim>\<open>@\<close> fails with the parser still at \<^verbatim>\<open>@\<close>, so it
  is the recovery that consumes it. In general, when the operand parse of a turn of
  the argument loop fails, leaving the state \<open>p1\<close>, the loop goes on from
  \<open>consumeToken p1\<close>: exactly the token that is current in \<open>p1\<close> is dropped, the
  arguments collected so far are kept, and the failed parse has added exactly one
  diagnostic. The loop only ever returns at an end-of-input token, with the earlier
  arguments a prefix of the result. Tokens that the failed operand parse consumed
  itself before it failed are not given back.
\<close>

theorem parseCommand_recovery:
  "(\<forall>n args p p1. currentType p \<noteq> EOFT \<and> parseUnaryOpExpr n p = Some (None, p1) \<longrightarrow>
      parseCommand_loop (Suc n) args p = parseCommand_loop n args (consumeToken p1)
      \<and> currentToken (consumeToken p1) = (case scanner p1 of [] \<Rightarrow> endOfInput | t # ts \<Rightarrow> t)
      \<and> scanner (consumeToken p1) = drop 1 (scanner p1)
      \<and> (\<exists>m. errorContext (consumeToken p1) = errorContext p @ [m]))
 \<and> (\<forall>n args p args' p'. parseCommand_loop n args p = Some (args', p') \<longrightarrow>
      currentType p' = EOFT \<and> (\<exists>more. args' = args @ more))
 \<and> (\<forall>c. \<exists>n.
      parseCommand n \<lparr>currentToken = c, scanner = tokens_cmd_1_at_2, errorContext = []\<rparr> =
        Some (Some (CommandAST ''cmd'' 0 2 [IntegerExpr 4 4 1, IntegerExpr 8 8 2]),
              parserAt [Tok EOFT [] 9 9] [(''invalid character in input'', 6)]))
 \<and> (\<exists>n. parseUnaryOpExpr n
             (parserAt [Tok UNKNOWN ''@'' 6 6, Tok INTEGER ''2'' 8 8, Tok EOFT [] 9 9] []) =
        Some (None, parserAt [Tok UNKNOWN ''@'' 6 6, Tok INTEGER ''2'' 8 8, Tok EOFT [] 9 9]
                      [(''invalid character in input'', 6)]))"
proof -
  have a: "\<forall>n args p p1. currentType p \<noteq> EOFT \<and> parseUnaryOpExpr n p = Some (None, p1) \<longrightarrow>
      parseCommand_loop (Suc n) args p = parseCommand_loop n args (consumeToken p1)
      \<and> currentToken (consumeToken p1) = (case scanner p1 of [] \<Rightarrow> endOfInput | t # ts \<Rightarrow> t)
      \<and> scanner (consumeToken p1) = drop 1 (scanner p1)
      \<and> (\<exists>m. errorContext (consumeToken p1) = errorContext p @ [m])"
    using parseCommand_loop_skip consumeToken_drops_one parseUnaryOpExpr_None_errorContext
    by (simp del: drop_Suc_Cons One_nat_def) blast
  have b: "\<forall>n args p args' p'. parseCommand_loop n args p = Some (args', p') \<longrightarrow>
      currentType p' = EOFT \<and> (\<exists>more. args' = args @ more)"
    using parseCommand_loop_EOFT parseCommand_loop_keeps by blast
  have c: "\<forall>c. \<exists>n.
      parseCommand n \<lparr>currentToken = c, scanner = tokens_cmd_1_at_2, errorContext = []\<rparr> =
        Some (Some (CommandAST ''cmd'' 0 2 [IntegerExpr 4 4 1, IntegerExpr 8 8 2]),
              parserAt [Tok EOFT [] 9 9] [(''invalid character in input'', 6)])"
    using example_cmd_1_at_2 by blast
  have d: "\<exists>n. parseUnaryOpExpr n
             (parserAt [Tok UNKNOWN ''@'' 6 6, Tok INTEGER ''2'' 8 8, Tok EOFT [] 9 9] []) =
        Some (None, parserAt [Tok UNKNOWN ''@'' 6 6, Tok INTEGER ''2'' 8 8, Tok EOFT [] 9 9]
                      [(''invalid character in input'', 6)])"
    using example_at_2 by blast
  show ?thesis by (intro conjI a b c d)
qed

theorem parseCommand_recovery_witness:
  "parseCommand_loop 5 [IntegerExpr 4 4 1]
     (parserAt [Tok UNKNOWN ''@'' 6 6, Tok INTEGER ''2'' 8 8, Tok EOFT [] 9 9] []) =
   parseCommand_loop 4 [IntegerExpr 4 4 1]
     (parserAt [Tok INTEGER ''2'' 8 8, Tok EOFT [] 9 9] [(''invalid character in input'', 6)])
 \<and> parseCommand_loop 4 [IntegerExpr 4 4 1]
     (parserAt [Tok INTEGER ''2'' 8 8, Tok EOFT [] 9 9] [(''invalid character in input'', 6)]) =
   Some ([IntegerExpr 4 4 1, IntegerExpr 8 8 2],
         parserAt [Tok EOFT [] 9 9] [(''invalid character in input'', 6)])
 \<and> currentType (parserAt [Tok EOFT [] 9 9] [(''invalid character in input'', 6)]) = EOFT"
proof -
  let ?p = "parserAt [Tok UNKNOWN ''@'' 6 6, Tok INTEGER ''2'' 8 8, Tok EOFT [] 9 9] []"
  let ?p1 = "parserAt [Tok UNKNOWN ''@'' 6 6, Tok INTEGER ''2'' 8 8, Tok EOFT [] 9 9]
               [(''invalid character in input'', 6)]"
  have "currentType ?p \<noteq> EOFT" by simp
  with parseCommand_recovery example_at_2
  have "parseCommand_loop (Suc 4) [IntegerExpr 4 4 1] ?p
      = parseCommand_loop 4 [IntegerExpr 4 4 1] (consumeToken ?p1)"
    by blast
  then have "parseCommand_loop 5 [IntegerExpr 4 4 1] ?p
      = parseCommand_loop 4 [IntegerExpr 4 4 1]
          (parserAt [Tok INTEGER ''2'' 8 8, Tok EOFT [] 9 9]
             [(''invalid character in input'', 6)])"
    by simp
  moreover have loop: "parseCommand_loop 4 [IntegerExpr 4 4 1]
     (parserAt [Tok INTEGER ''2'' 8 8, Tok EOFT [] 9 9] [(''invalid character in input'', 6)]) =
   Some ([IntegerExpr 4 4 1, IntegerExpr 8 8 2],
         parserAt [Tok EOFT [] 9 9] [(''invalid character in input'', 6)])"
    by code_simp
  moreover from parseCommand_recovery loop
  have "currentType (parserAt [Tok EOFT [] 9 9] [(''invalid character in input'', 6)]) = EOFT"
    by blast
  ultimately show ?thesis by blast
qed




subsection \<open>Termination\<close>

text \<open>
  C8. Both entry points return for every parser state, that is, for every current
  token and every finite list of tokens still to come (a list that ends in an
  end-of-input token is one of them): with a bound of four times the number of
  tokens left plus three, \<^verbatim>\<open>parseExpression\<close> and \<^verbatim>\<open>parseCommand\<close> have a result, a
  tree or the null result. The result does not depend on the bound. The reason is
  the one the spec gives: an expression or operand parse that succeeds has consumed
  at least one token, an operand parse that fails has consumed at least one token
  or none at all, the climbing loop never gives tokens back, and the argument loop
  of \<^verbatim>\<open>parseCommand\<close> ends at an end-of-input token.
\<close>

theorem parse_terminates:
  "(\<exists>r. parseExpression (4 * remaining p + 3) p = Some r)
 \<and> (\<exists>r. parseCommand (4 * length (scanner p) + 3) p = Some r)
 \<and> (\<forall>n m r r'. parseExpression n p = Some r \<and> parseExpression m p = Some r' \<longrightarrow> r = r')
 \<and> (\<forall>n m r r'. parseCommand n p = Some r \<and> parseCommand m p = Some r' \<longrightarrow> r = r')
 \<and> (\<forall>n e p'. parseExpression n p = Some (Some e, p') \<longrightarrow> remaining p' < remaining p)
 \<and> (\<forall>n e p'. parseUnaryOpExpr n p = Some (Some e, p') \<longrightarrow> remaining p' < remaining p)
 \<and> (\<forall>n p'. parseUnaryOpExpr n p = Some (None, p') \<longrightarrow>
        remaining p' < remaining p
        \<or> (currentToken p' = currentToken p \<and> scanner p' = scanner p))
 \<and> (\<forall>n f lhs r p'. parseBinaryOpRHS n f lhs p = Some (r, p') \<longrightarrow> remaining p' \<le> remaining p)
 \<and> (\<forall>n c p'. parseCommand n p = Some (Some c, p') \<longrightarrow> currentType p' = EOFT)"
proof -
  have "parseExpression (4 * remaining p + 3) p \<noteq> None"
    using parse_total [of "4 * remaining p + 3"] by simp
  then have a: "\<exists>r. parseExpression (4 * remaining p + 3) p = Some r" by auto
  have "parseCommand (4 * length (scanner p) + 3) p \<noteq> None"
    by (rule parseCommand_total) simp
  then have b: "\<exists>r. parseCommand (4 * length (scanner p) + 3) p = Some r" by auto
  have c: "\<forall>n m r r'. parseExpression n p = Some r \<and> parseExpression m p = Some r' \<longrightarrow> r = r'"
    using parseExpression_deterministic by blast
  have d: "\<forall>n m r r'. parseCommand n p = Some r \<and> parseCommand m p = Some r' \<longrightarrow> r = r'"
    using parseCommand_deterministic by blast
  have e: "\<forall>n e p'. parseExpression n p = Some (Some e, p') \<longrightarrow> remaining p' < remaining p"
    using parseExpression_ok by (fastforce simp: ok_strict_def)
  have f: "\<forall>n e p'. parseUnaryOpExpr n p = Some (Some e, p') \<longrightarrow> remaining p' < remaining p"
    using parseUnaryOpExpr_less by blast
  have f': "\<forall>n p'. parseUnaryOpExpr n p = Some (None, p') \<longrightarrow>
        remaining p' < remaining p
        \<or> (currentToken p' = currentToken p \<and> scanner p' = scanner p)"
    using parseUnaryOpExpr_ok by (fastforce simp: ok_operand_def)
  have g: "\<forall>n f lhs r p'. parseBinaryOpRHS n f lhs p = Some (r, p')
      \<longrightarrow> remaining p' \<le> remaining p"
    using parseBinaryOpRHS_le by blast
  have h: "\<forall>n c p'. parseCommand n p = Some (Some c, p') \<longrightarrow> currentType p' = EOFT"
    using parseCommand_EOFT by blast
  show ?thesis by (intro conjI a b c d e f f' g h)
qed

theorem parse_terminates_witness:
  "(\<exists>r. parseExpression 27 (parserAt tokens_2_plus_3_times_4 []) = Some r)
 \<and> remaining (parserAt [Tok EOFT [] 9 9] []) < remaining (parserAt tokens_2_plus_3_times_4 [])
 \<and> (\<exists>r. parseCommand 23
        \<lparr>currentToken = endOfInput, scanner = tokens_cmd_1_plus_2, errorContext = []\<rparr> = Some r)
 \<and> currentType (parserAt [Tok EOFT [] 9 9] []) = EOFT
 \<and> scanner (parserAt [Tok UNKNOWN ''@'' 6 6, Tok EOFT [] 7 7] [(''invalid character in input'', 6)])
     = scanner (parserAt [Tok UNKNOWN ''@'' 6 6, Tok EOFT [] 7 7] [])"
proof -
  let ?p = "parserAt tokens_2_plus_3_times_4 []"
  have six: "remaining ?p = 6"
    by (simp add: remaining_def tokens_2_plus_3_times_4_def parserAt_Cons currentType_def)
  from parse_terminates [of ?p]
  have "\<exists>r. parseExpression (4 * remaining ?p + 3) ?p = Some r"
    and less: "\<forall>n e p'. parseExpression n ?p = Some (Some e, p') \<longrightarrow> remaining p' < remaining ?p"
    by blast+
  then have a: "\<exists>r. parseExpression 27 ?p = Some r" by (simp add: six)
  from less example_2_plus_3_times_4
  have b: "remaining (parserAt [Tok EOFT [] 9 9] []) < remaining ?p" by blast
  let ?c = "\<lparr>currentToken = endOfInput, scanner = tokens_cmd_1_plus_2, errorContext = []\<rparr>"
  from parse_terminates [of ?c]
  have "\<exists>r. parseCommand (4 * length (scanner ?c) + 3) ?c = Some r"
    and eof: "\<forall>n c p'. parseCommand n ?c = Some (Some c, p') \<longrightarrow> currentType p' = EOFT"
    by blast+
  then have c: "\<exists>r. parseCommand 23 ?c = Some r"
    by (simp add: tokens_cmd_1_plus_2_def)
  from eof example_cmd_1_plus_2 [of endOfInput]
  have d: "currentType (parserAt [Tok EOFT [] 9 9] []) = EOFT" by blast
  let ?q = "parserAt [Tok UNKNOWN ''@'' 6 6, Tok EOFT [] 7 7] []"
  let ?q' = "parserAt [Tok UNKNOWN ''@'' 6 6, Tok EOFT [] 7 7] [(''invalid character in input'', 6)]"
  have fail: "parseUnaryOpExpr 2 ?q = Some (None, ?q')" by code_simp
  have same: "\<not> remaining ?q' < remaining ?q"
    by (simp add: remaining_def parserAt_Cons currentType_def)
  from parse_terminates [of ?q] fail
  have "remaining ?q' < remaining ?q
      \<or> (currentToken ?q' = currentToken ?q \<and> scanner ?q' = scanner ?q)"
    by blast
  with same have e: "scanner ?q' = scanner ?q" by blast
  show ?thesis by (intro conjI a b c d e)
qed

end
